theory Spec2Isabelle
  imports Main
begin

section \<open>Strings of the source language\<close>

text \<open>
  The program is Python. A Python \<open>str\<close> is a sequence of code points; it is modelled as
  a \<open>string\<close> (a \<open>char list\<close>) in which every \<open>char\<close> is one code point in the range
  0..255, so \<open>length\<close> is Python's \<open>len\<close>. The character classes below are the ones
  Python uses on that range: \<open>str.strip()\<close> removes the code points for which
  \<open>str.isspace\<close> holds, \<open>str.lower()\<close> maps the upper-case letters of ASCII and of the
  Latin-1 supplement to their lower-case partners (32 further on) and the regular
  expression class \<open>\w\<close> holds of the alphanumeric code points and of the underscore.
\<close>

definition isspace :: "char \<Rightarrow> bool" where
  "isspace c = (let n = (of_char c :: nat) in
      (9 \<le> n \<and> n \<le> 13) \<or> (28 \<le> n \<and> n \<le> 32) \<or> n = 133 \<or> n = 160)"

definition lower_char :: "char \<Rightarrow> char" where
  "lower_char c = (let n = (of_char c :: nat) in
      if (65 \<le> n \<and> n \<le> 90) \<or> (192 \<le> n \<and> n \<le> 214) \<or> (216 \<le> n \<and> n \<le> 222)
      then char_of (n + 32) else c)"

definition is_word_char :: "char \<Rightarrow> bool" where
  "is_word_char c = (let n = (of_char c :: nat) in
      (48 \<le> n \<and> n \<le> 57) \<or> (65 \<le> n \<and> n \<le> 90) \<or> n = 95 \<or> (97 \<le> n \<and> n \<le> 122) \<or>
      n = 170 \<or> n = 178 \<or> n = 179 \<or> n = 181 \<or> n = 185 \<or> n = 186 \<or>
      (188 \<le> n \<and> n \<le> 190) \<or> (192 \<le> n \<and> n \<le> 214) \<or> (216 \<le> n \<and> n \<le> 246) \<or>
      (248 \<le> n \<and> n \<le> 255))"

text \<open>\<open>s.lower()\<close> and \<open>s.strip()\<close>.\<close>

definition py_lower :: "string \<Rightarrow> string" where
  "py_lower s = map lower_char s"

definition py_strip :: "string \<Rightarrow> string" where
  "py_strip s = rev (dropWhile isspace (rev (dropWhile isspace s)))"

text \<open>\<open>s.startswith(p)\<close>, \<open>s.endswith(p)\<close> and the substring test \<open>sub in s\<close>.\<close>

fun py_startswith :: "string \<Rightarrow> string \<Rightarrow> bool" where
  "py_startswith s [] = True"
| "py_startswith [] (p # ps) = False"
| "py_startswith (c # cs) (p # ps) = (c = p \<and> py_startswith cs ps)"

definition py_endswith :: "string \<Rightarrow> string \<Rightarrow> bool" where
  "py_endswith s p = py_startswith (rev s) (rev p)"

fun py_in :: "string \<Rightarrow> string \<Rightarrow> bool" where
  "py_in sub [] = (sub = [])"
| "py_in sub (c # cs) = (py_startswith (c # cs) sub \<or> py_in sub cs)"

text \<open>\<open>s.split(sep)\<close> for a separator of one character, and \<open>sep.join(parts)\<close>.\<close>

fun py_split :: "char \<Rightarrow> string \<Rightarrow> string list" where
  "py_split sep [] = [[]]"
| "py_split sep (c # cs) =
     (let r = py_split sep cs in if c = sep then [] # r else (c # hd r) # tl r)"

fun py_join :: "string \<Rightarrow> string list \<Rightarrow> string" where
  "py_join sep [] = []"
| "py_join sep [x] = x"
| "py_join sep (x # y # ys) = x @ sep @ py_join sep (y # ys)"

subsection \<open>The regular expressions of the source\<close>

text \<open>
  The patterns of \<open>extract_job_sections\<close> are alternations \<open>(w1|w2|...)\<close> of words made
  of literal characters and, in one place, an optional character (\<open>requirements?\<close>).
  \<open>re.search(pattern, line, re.I)\<close> looks for a match of one alternative at any position
  of the line and compares characters up to case.
\<close>

datatype atom = Lit char | Opt char

type_synonym pattern = "atom list list"

fun match_here :: "atom list \<Rightarrow> string \<Rightarrow> bool" where
  "match_here [] s = True"
| "match_here (Lit c # as) [] = False"
| "match_here (Lit c # as) (d # ds) = (lower_char d = lower_char c \<and> match_here as ds)"
| "match_here (Opt c # as) [] = match_here as []"
| "match_here (Opt c # as) (d # ds) =
     ((lower_char d = lower_char c \<and> match_here as ds) \<or> match_here as (d # ds))"

fun search_alt :: "atom list \<Rightarrow> string \<Rightarrow> bool" where
  "search_alt as [] = match_here as []"
| "search_alt as (d # ds) = (match_here as (d # ds) \<or> search_alt as ds)"

definition re_search :: "pattern \<Rightarrow> string \<Rightarrow> bool" where
  "re_search p line = list_ex (\<lambda>as. search_alt as line) p"

text \<open>
  \<open>re.split(r'[.!?]+', s)\<close>: the pieces of \<open>s\<close> between the maximal runs of the three
  sentence terminators; a run at either end leaves an empty piece there.
\<close>

definition is_terminator :: "char \<Rightarrow> bool" where
  "is_terminator c = (c = CHR ''.'' \<or> c = CHR ''!'' \<or> c = CHR ''?'')"

function re_split_sentences :: "string \<Rightarrow> string list" where
  "re_split_sentences s =
     (let piece = takeWhile (\<lambda>c. \<not> is_terminator c) s;
          rest = dropWhile (\<lambda>c. \<not> is_terminator c) s
      in if rest = [] then [piece]
         else piece # re_split_sentences (dropWhile is_terminator rest))"
  by pat_completeness auto
termination
proof (relation "measure length")
  show "wf (measure length)" by simp
next
  fix s :: string and piece rest
  assume r: "rest = dropWhile (\<lambda>c. \<not> is_terminator c) s" and ne: "rest \<noteq> []"
  from ne obtain c cs where rc: "rest = c # cs" by (cases rest) auto
  have "dropWhile (\<lambda>c. \<not> is_terminator c) s = c # cs"
    using r rc by simp
  then have "is_terminator c"
    by (simp add: dropWhile_eq_Cons_conv)
  then have "length (dropWhile is_terminator rest) \<le> length cs"
    using rc by (simp add: length_dropWhile_le)
  moreover have "length rest \<le> length s"
    using r by (simp add: length_dropWhile_le)
  ultimately show "(dropWhile is_terminator rest, s) \<in> measure length"
    using rc by simp
qed

declare re_split_sentences.simps [simp del]

text \<open>\<open>re.sub(r'\W+', '', s)\<close>: every character outside \<open>\w\<close> is removed.\<close>

definition re_sub_nonword :: "string \<Rightarrow> string" where
  "re_sub_nonword s = filter is_word_char s"

subsection \<open>Exceptions, list indexing and the insertion-ordered dictionary\<close>

datatype py_error = IndexError | KeyError

definition bind_result :: "py_error + 'a \<Rightarrow> ('a \<Rightarrow> py_error + 'b) \<Rightarrow> py_error + 'b" where
  "bind_result r f = (case r of Inl e \<Rightarrow> Inl e | Inr v \<Rightarrow> f v)"

text \<open>\<open>xs[0]\<close> and \<open>xs[-1]\<close> raise \<open>IndexError\<close> on the empty list.\<close>

definition py_first :: "'a list \<Rightarrow> py_error + 'a" where
  "py_first xs = (case xs of [] \<Rightarrow> Inl IndexError | x # _ \<Rightarrow> Inr x)"

definition py_last :: "'a list \<Rightarrow> py_error + 'a" where
  "py_last xs = (if xs = [] then Inl IndexError else Inr (last xs))"

text \<open>
  A Python \<open>dict\<close> keeps its keys in insertion order, and \<open>consolidate_jobs\<close> depends on
  that order, so the dictionary is an association list in insertion order. Assigning
  to a key that is present replaces its value in place; assigning to a new key appends.
  \<open>d[k]\<close> raises \<open>KeyError\<close> when \<open>k\<close> is absent.
\<close>

type_synonym ('k, 'v) dict = "('k \<times> 'v) list"

definition dict_keys :: "('k, 'v) dict \<Rightarrow> 'k list" where
  "dict_keys d = map fst d"

definition dict_contains :: "('k, 'v) dict \<Rightarrow> 'k \<Rightarrow> bool" where
  "dict_contains d k = (k \<in> set (dict_keys d))"

definition dict_get :: "('k, 'v) dict \<Rightarrow> 'k \<Rightarrow> py_error + 'v" where
  "dict_get d k = (case map_of d k of None \<Rightarrow> Inl KeyError | Some v \<Rightarrow> Inr v)"

definition dict_set :: "('k, 'v) dict \<Rightarrow> 'k \<Rightarrow> 'v \<Rightarrow> ('k, 'v) dict" where
  "dict_set d k v =
     (if dict_contains d k then map (\<lambda>(k', v'). if k' = k then (k', v) else (k', v')) d
      else d @ [(k, v)])"

section \<open>The segmenter: \<open>extract_job_sections\<close>\<close>

text \<open>Lines 17 to 50 of \<open>jobs.py\<close>.\<close>

definition lits :: "string \<Rightarrow> atom list" where
  "lits w = map Lit w"

text \<open>The four pattern groups of the source, in its order.\<close>

definition title_words :: "string list" where
  "title_words = [''project manager'', ''software developer'', ''web developer'',
     ''data analyst'', ''ui/ux designer'', ''quality assurance'', ''devops engineer'',
     ''marketing manager'', ''sales manager'']"

definition opening_words :: "string list" where
  "opening_words = [''position'', ''role'', ''job'', ''opening'', ''career'', ''hiring'']"

definition requirement_pattern :: pattern where
  "requirement_pattern = [lits ''requirement'' @ [Opt (CHR ''s'')], lits ''responsibilities'',
     lits ''qualifications'', lits ''experience'']"

definition place_pattern :: pattern where
  "place_pattern = map lits [''karachi'', ''lahore'', ''islamabad'', ''remote'', ''on-site'']"

definition job_patterns :: "pattern list" where
  "job_patterns = [map lits title_words, map lits opening_words,
     requirement_pattern, place_pattern]"

text \<open>
  \<open>any(re.search(pattern, line, re.I) for pattern in job_patterns[:2])\<close>: only the
  first two groups are consulted.
\<close>

definition is_job_start :: "string \<Rightarrow> bool" where
  "is_job_start line = list_ex (\<lambda>pattern. re_search pattern line) (take 2 job_patterns)"

text \<open>
  The body of the loop over the lines. The state is the pair of \<open>sections\<close> and
  \<open>current_section\<close>; a line that is blank after \<open>strip\<close> is skipped by \<open>continue\<close>.
\<close>

definition section_step :: "string list \<times> string list \<Rightarrow> string \<Rightarrow> string list \<times> string list" where
  "section_step st raw =
     (let sections = fst st; current_section = snd st; line = py_strip raw
      in if line = [] then (sections, current_section)
         else if is_job_start line \<and> current_section \<noteq> []
              then (sections @ [py_join [CHR 0x0A] current_section], [line])
              else (sections, current_section @ [line]))"

definition extract_job_sections :: "string \<Rightarrow> string list" where
  "extract_job_sections text =
     (let st = foldl section_step ([], []) (py_split (CHR 0x0A) text);
          sections = fst st; current_section = snd st
      in if current_section \<noteq> [] then sections @ [py_join [CHR 0x0A] current_section]
         else sections)"

section \<open>The consolidator: \<open>consolidate_jobs\<close>\<close>

text \<open>
  Lines 143 to 214 of \<open>jobs.py\<close>. An item of the extractor's output has a class and a
  text. The working dictionary \<open>jobs_by_title\<close> maps a normalised title to the data
  collected for it, a dictionary with the keys \<open>title\<close> (here \<open>group_title\<close>),
  \<open>locations\<close> and \<open>descriptions\<close>; each consolidated job is a dictionary with the
  three keys \<open>title\<close>, \<open>location\<close> and \<open>description\<close>. The function returns the list of
  jobs, or the exception that an index or a key lookup raises.
\<close>

record extraction =
  extraction_class :: string
  extraction_text :: string

record job_data =
  group_title :: string
  locations :: "string list"
  descriptions :: "string list"

record job =
  title :: string
  location :: string
  description :: string

definition skip_terms :: "string list" where
  "skip_terms = [''business continuity'', ''managed hosting'', ''content marketing'',
     ''brand identity'', ''web design'', ''canva'', ''figma'', ''blender'']"

text \<open>\<open>any(term in extraction_text.lower() for term in skip_terms)\<close>\<close>

definition is_skipped :: "string \<Rightarrow> bool" where
  "is_skipped txt = list_ex (\<lambda>skip_term. py_in skip_term (py_lower txt)) skip_terms"

text \<open>
  The body of the first loop (lines 148 to 180), one item at a time. The item is skipped
  by \<open>continue\<close> when its trimmed text contains a skip term. \<open>list(d.keys())[-1]\<close> and
  \<open>d[last_title]\<close> are the two operations that can raise.
\<close>

definition process_item ::
  "(string, job_data) dict \<Rightarrow> extraction \<Rightarrow> py_error + (string, job_data) dict" where
  "process_item jobs_by_title item =
     (let cls = py_lower (extraction_class item);
          txt = py_strip (extraction_text item)
      in if is_skipped txt then Inr jobs_by_title
         else if cls = ''title'' then
           (let title_key = py_strip (py_lower txt)
            in if \<not> dict_contains jobs_by_title title_key
               then Inr (dict_set jobs_by_title title_key
                      \<lparr>group_title = txt, locations = [], descriptions = []\<rparr>)
               else Inr jobs_by_title)
         else if cls = ''location'' then
           (if jobs_by_title \<noteq> [] then
              bind_result (py_last (dict_keys jobs_by_title)) (\<lambda>last_title.
              bind_result (dict_get jobs_by_title last_title) (\<lambda>g.
                if txt \<noteq> [] \<and> txt \<notin> set (locations g)
                then Inr (dict_set jobs_by_title last_title
                       (g\<lparr>locations := locations g @ [txt]\<rparr>))
                else Inr jobs_by_title))
            else Inr jobs_by_title)
         else if cls = ''description'' then
           (if jobs_by_title \<noteq> [] then
              bind_result (py_last (dict_keys jobs_by_title)) (\<lambda>last_title.
              bind_result (dict_get jobs_by_title last_title) (\<lambda>g.
                Inr (dict_set jobs_by_title last_title
                       (g\<lparr>descriptions := descriptions g @ [txt]\<rparr>))))
            else Inr jobs_by_title)
         else Inr jobs_by_title)"

fun process_items ::
  "(string, job_data) dict \<Rightarrow> extraction list \<Rightarrow> py_error + (string, job_data) dict" where
  "process_items jobs_by_title [] = Inr jobs_by_title"
| "process_items jobs_by_title (item # items) =
     bind_result (process_item jobs_by_title item) (\<lambda>jobs'. process_items jobs' items)"

text \<open>
  The sentence loop of the second half (lines 189 to 206). The state is
  \<open>all_descriptions\<close> with the set \<open>seen_content\<close>; it is shared by all the descriptions
  of one job.
\<close>

definition sentence_step :: "string list \<times> string set \<Rightarrow> string \<Rightarrow> string list \<times> string set" where
  "sentence_step st raw =
     (let all_descriptions = fst st; seen_content = snd st; sentence = py_strip raw
      in if length sentence > 10 then
           (let sentence_key = re_sub_nonword (py_lower sentence)
            in if sentence_key \<notin> seen_content
               then (all_descriptions @ [sentence], insert sentence_key seen_content)
               else (all_descriptions, seen_content))
         else (all_descriptions, seen_content))"

definition description_step :: "string list \<times> string set \<Rightarrow> string \<Rightarrow> string list \<times> string set" where
  "description_step st desc = foldl sentence_step st (re_split_sentences desc)"

definition combine_descriptions :: "string list \<Rightarrow> string" where
  "combine_descriptions descs =
     (let all_descriptions = fst (foldl description_step ([], {}) descs);
          combined_description = py_join ''. '' all_descriptions
      in if combined_description \<noteq> [] \<and> \<not> py_endswith combined_description ''.''
         then combined_description @ ''.'' else combined_description)"

definition consolidate_job :: "job_data \<Rightarrow> py_error + job" where
  "consolidate_job jd =
     bind_result (if locations jd \<noteq> [] then py_first (locations jd) else Inr ''None'')
       (\<lambda>loc. Inr \<lparr>title = group_title jd, location = loc,
                   description = combine_descriptions (descriptions jd)\<rparr>)"

fun consolidate_all :: "(string, job_data) dict \<Rightarrow> py_error + job list" where
  "consolidate_all [] = Inr []"
| "consolidate_all ((title_key, jd) # rest) =
     bind_result (consolidate_job jd) (\<lambda>j.
     bind_result (consolidate_all rest) (\<lambda>js. Inr (j # js)))"

definition consolidate_jobs :: "extraction list \<Rightarrow> py_error + job list" where
  "consolidate_jobs extractions =
     bind_result (process_items [] extractions) consolidate_all"

section \<open>The final filter of \<open>main\<close>\<close>

text \<open>Lines 240 to 249 of \<open>jobs.py\<close>: the loop that fills \<open>filtered_jobs\<close>.\<close>

definition job_title_keywords :: "string list" where
  "job_title_keywords = [''manager'', ''developer'', ''engineer'', ''analyst'', ''designer'',
     ''coordinator'', ''specialist'', ''lead'', ''senior'', ''junior'', ''intern'']"

definition filter_step :: "job list \<Rightarrow> job \<Rightarrow> job list" where
  "filter_step filtered_jobs j =
     (let title_lower = py_lower (title j)
      in if list_ex (\<lambda>keyword. py_in keyword title_lower) job_title_keywords
         then (if length (description j) > 50 then filtered_jobs @ [j] else filtered_jobs)
         else filtered_jobs)"

definition filter_jobs :: "job list \<Rightarrow> job list" where
  "filter_jobs jobs = foldl filter_step [] jobs"

section \<open>Notions used to state the properties\<close>

text \<open>
  \<open>first_occurrences key xs\<close> keeps, in their order, the elements of \<open>xs\<close> whose key has
  not occurred at an earlier position.
\<close>

definition first_occurrences :: "('a \<Rightarrow> 'k) \<Rightarrow> 'a list \<Rightarrow> 'a list" where
  "first_occurrences key xs =
     map (\<lambda>i. xs ! i) (filter (\<lambda>i. key (xs ! i) \<notin> key ` set (take i xs)) [0..<length xs])"

text \<open>
  The segmenter as the specification words it. The lines of the page are trimmed and the
  blank ones dropped; a line is a section start when its lowercased text contains a word
  of the first two pattern groups; \<open>split_before\<close> cuts the lines before every section
  start other than the first line, so that a section runs from its first line up to the
  next section start; the lines of a section are joined with newlines.
\<close>

function split_before :: "('a \<Rightarrow> bool) \<Rightarrow> 'a list \<Rightarrow> 'a list list" where
  "split_before P [] = []"
| "split_before P (x # xs) =
     (x # takeWhile (\<lambda>y. \<not> P y) xs) # split_before P (dropWhile (\<lambda>y. \<not> P y) xs)"
  by pat_completeness auto
termination
  by (relation "measure (\<lambda>(P, xs). length xs)") (simp_all add: length_dropWhile_le le_imp_less_Suc)

definition spec_is_start :: "string \<Rightarrow> bool" where
  "spec_is_start line = (\<exists>w\<in>set (title_words @ opening_words). py_in w (py_lower line))"

definition nonblank_lines :: "string \<Rightarrow> string list" where
  "nonblank_lines page = filter (\<lambda>l. l \<noteq> []) (map py_strip (py_split (CHR 0x0A) page))"

definition spec_sections :: "string \<Rightarrow> string list" where
  "spec_sections page = map (py_join [CHR 0x0A]) (split_before spec_is_start (nonblank_lines page))"

text \<open>
  The merge of the descriptions of one job as the specification words it: split every
  description at the runs of terminators, trim the pieces, drop those of at most 10
  characters, key each piece by removing the non-word characters and lowercasing, keep
  the first piece of every key, join with a period and a blank, and close with a period
  when the result is not empty and does not end with one.
\<close>

definition spec_dedup_key :: "string \<Rightarrow> string" where
  "spec_dedup_key piece = py_lower (re_sub_nonword piece)"

definition spec_candidates :: "string list \<Rightarrow> string list" where
  "spec_candidates descs =
     filter (\<lambda>piece. \<not> length piece \<le> 10) (map py_strip (concat (map re_split_sentences descs)))"

definition spec_merged :: "string list \<Rightarrow> string" where
  "spec_merged descs =
     (let joined = py_join ''. '' (first_occurrences spec_dedup_key (spec_candidates descs))
      in if joined \<noteq> [] \<and> last joined \<noteq> CHR ''.'' then joined @ ''.'' else joined)"

text \<open>
  An item is accepted when its trimmed text passes the test against \<open>skip_terms\<close>; its
  class is read in lower case, as the loop does. \<open>title_key\<close> is the key the loop computes
  for a title, and \<open>created_keys\<close> lists the keys of the accepted titles in the order
  in which they first occur, which is the order in which the loop inserts them. Trimming
  the text before or after lowercasing it gives the same key.
\<close>

definition accepted :: "extraction \<Rightarrow> bool" where
  "accepted item = (\<not> is_skipped (py_strip (extraction_text item)))"

definition has_class :: "string \<Rightarrow> extraction \<Rightarrow> bool" where
  "has_class c item = (py_lower (extraction_class item) = c)"

definition title_key :: "extraction \<Rightarrow> string" where
  "title_key item = py_strip (py_lower (py_strip (extraction_text item)))"

definition created_keys :: "extraction list \<Rightarrow> string list" where
  "created_keys items =
     first_occurrences (\<lambda>k. k)
       (map title_key (filter (\<lambda>i. accepted i \<and> has_class ''title'' i) items))"

subsection \<open>The loop body of \<open>consolidate_jobs\<close> without its error cases\<close>

text \<open>
  These notions serve the proofs only. \<open>step\<close> is what \<open>process_item\<close> returns while the
  keys of the dictionary are distinct (lemma \<open>process_item_step\<close>); \<open>finalize\<close> is what
  \<open>consolidate_job\<close> returns (lemma \<open>consolidate_job_finalize\<close>); a string is \<open>stripped\<close>
  when \<open>py_strip\<close> leaves it unchanged.
\<close>

definition stripped :: "string \<Rightarrow> bool" where
  "stripped s = (s = [] \<or> (\<not> isspace (hd s) \<and> \<not> isspace (last s)))"

definition add_location :: "string \<Rightarrow> job_data \<Rightarrow> job_data" where
  "add_location txt g =
     (if txt \<noteq> [] \<and> txt \<notin> set (locations g) then g\<lparr>locations := locations g @ [txt]\<rparr> else g)"

definition add_description :: "string \<Rightarrow> job_data \<Rightarrow> job_data" where
  "add_description txt g = g\<lparr>descriptions := descriptions g @ [txt]\<rparr>"

definition on_last :: "('v \<Rightarrow> 'v) \<Rightarrow> ('k, 'v) dict \<Rightarrow> ('k, 'v) dict" where
  "on_last f d = (if d = [] then [] else butlast d @ [(fst (last d), f (snd (last d)))])"

definition step :: "(string, job_data) dict \<Rightarrow> extraction \<Rightarrow> (string, job_data) dict" where
  "step jobs item =
     (if \<not> accepted item then jobs
      else if has_class ''title'' item then
        (if title_key item \<in> set (dict_keys jobs) then jobs
         else jobs @ [(title_key item,
                \<lparr>group_title = py_strip (extraction_text item), locations = [], descriptions = []\<rparr>)])
      else if has_class ''location'' item then on_last (add_location (py_strip (extraction_text item))) jobs
      else if has_class ''description'' item then on_last (add_description (py_strip (extraction_text item))) jobs
      else jobs)"

text \<open>
  The loop body of \<open>extract_job_sections\<close> on a line that is already trimmed and not
  blank, and the flush after the loop.
\<close>

definition line_step :: "string list \<times> string list \<Rightarrow> string \<Rightarrow> string list \<times> string list" where
  "line_step st line =
     (if is_job_start line \<and> snd st \<noteq> []
      then (fst st @ [py_join [CHR 0x0A] (snd st)], [line])
      else (fst st, snd st @ [line]))"

definition finish :: "string list \<times> string list \<Rightarrow> string list" where
  "finish st = (if snd st \<noteq> [] then fst st @ [py_join [CHR 0x0A] (snd st)] else fst st)"

definition candidates :: "string list \<Rightarrow> string list" where
  "candidates pieces = filter (\<lambda>piece. \<not> length piece \<le> 10) (map py_strip pieces)"

definition kept_sentences :: "string list \<Rightarrow> string list" where
  "kept_sentences descs = first_occurrences spec_dedup_key (spec_candidates descs)"

definition finalize :: "string \<times> job_data \<Rightarrow> job" where
  "finalize entry =
     \<lparr>title = group_title (snd entry),
      location = (case locations (snd entry) of [] \<Rightarrow> ''None'' | l # _ \<Rightarrow> l),
      description = combine_descriptions (descriptions (snd entry))\<rparr>"

subsection \<open>Example inputs\<close>


definition casing_example :: "extraction list" where
  "casing_example =
     [\<lparr>extraction_class = ''title'', extraction_text = ''Dev''\<rparr>,
      \<lparr>extraction_class = ''location'', extraction_text = ''Lahore''\<rparr>,
      \<lparr>extraction_class = ''title'', extraction_text = ''dev ''\<rparr>]"

definition repeated_title_example :: "extraction list" where
  "repeated_title_example =
     [\<lparr>extraction_class = ''title'', extraction_text = ''Manager''\<rparr>,
      \<lparr>extraction_class = ''title'', extraction_text = ''Developer''\<rparr>,
      \<lparr>extraction_class = ''title'', extraction_text = ''manager''\<rparr>]"

definition filter_example :: "job list" where
  "filter_example =
     [\<lparr>title = ''Software Engineer'', location = ''None'', description = replicate 51 (CHR ''x'')\<rparr>,
      \<lparr>title = ''Software Engineer'', location = ''None'', description = replicate 50 (CHR ''x'')\<rparr>,
      \<lparr>title = ''Office Cleaner'', location = ''Lahore'', description = replicate 80 (CHR ''x'')\<rparr>]"

definition section_example :: string where
  "section_example = ''About us'' @ [CHR 0x0A] @ ''  Requirements: 3 years experience '' @ [CHR 0x0A] @
     ''   '' @ [CHR 0x0A] @ ''Lahore or remote'' @ [CHR 0x0A] @ ''We are HIRING a Data Analyst'' @
     [CHR 0x0A] @ ''Apply today''"

definition leading_start_example :: string where
  "leading_start_example = ''Hiring'' @ [CHR 0x0A] @ ''Intro'' @ [CHR 0x0A] @ ''Requirements''"


definition grouping_example :: "extraction list" where
  "grouping_example =
     [\<lparr>extraction_class = ''title'', extraction_text = ''Dev''\<rparr>,
      \<lparr>extraction_class = ''location'', extraction_text = ''Lahore''\<rparr>,
      \<lparr>extraction_class = ''title'', extraction_text = ''dev ''\<rparr>,
      \<lparr>extraction_class = ''description'', extraction_text = ''X.''\<rparr>]"

definition punctuation_example :: "extraction list" where
  "punctuation_example =
     [\<lparr>extraction_class = ''title'', extraction_text = ''Dev''\<rparr>,
      \<lparr>extraction_class = ''description'',
       extraction_text = ''Great team here! Are you ready to join us? Apply now today''\<rparr>]"

section \<open>Facts about the string operations\<close>

lemma py_startswith_iff: "py_startswith s p \<longleftrightarrow> (\<exists>ss. s = p @ ss)"
  by (induction s p rule: py_startswith.induct) auto

lemma py_in_iff: "py_in sub s \<longleftrightarrow> (\<exists>ps ss. s = ps @ sub @ ss)"
proof (induction s)
  case Nil
  then show ?case by simp
next
  case (Cons c cs)
  show ?case
  proof
    assume "py_in sub (c # cs)"
    then consider "py_startswith (c # cs) sub" | "py_in sub cs" by auto
    then show "\<exists>ps ss. c # cs = ps @ sub @ ss"
    proof cases
      case 1
      then obtain ss where "c # cs = sub @ ss" by (auto simp: py_startswith_iff)
      then have "c # cs = [] @ sub @ ss" by simp
      then show ?thesis by blast
    next
      case 2
      then obtain ps ss where "cs = ps @ sub @ ss" using Cons.IH by auto
      then have "c # cs = (c # ps) @ sub @ ss" by simp
      then show ?thesis by blast
    qed
  next
    assume "\<exists>ps ss. c # cs = ps @ sub @ ss"
    then obtain ps ss where e: "c # cs = ps @ sub @ ss" by auto
    show "py_in sub (c # cs)"
    proof (cases ps)
      case Nil
      then have "py_startswith (c # cs) sub" using e by (auto simp: py_startswith_iff)
      then show ?thesis by simp
    next
      case (Cons p ps')
      then have "cs = ps' @ sub @ ss" using e by simp
      then have "py_in sub cs" using Cons.IH by auto
      then show ?thesis by simp
    qed
  qed
qed

lemma py_endswith_dot: "py_endswith s ''.'' \<longleftrightarrow> (s \<noteq> [] \<and> last s = CHR ''.'')"
  by (cases s rule: rev_cases) (auto simp: py_endswith_def)

lemma isspace_lower_char [simp]: "isspace (lower_char c) = isspace c"
  by (simp add: isspace_def lower_char_def Let_def)

lemma is_word_lower_char [simp]: "is_word_char (lower_char c) = is_word_char c"
  by (simp add: is_word_char_def lower_char_def Let_def) 

lemma lower_char_idem [simp]: "lower_char (lower_char c) = lower_char c"
  by (simp add: lower_char_def Let_def) 

lemma py_lower_strip: "py_lower (py_strip s) = py_strip (py_lower s)"
  by (simp add: py_lower_def py_strip_def rev_map dropWhile_map comp_def)

lemma re_sub_nonword_lower: "re_sub_nonword (py_lower s) = py_lower (re_sub_nonword s)"
  by (simp add: re_sub_nonword_def py_lower_def filter_map comp_def)

lemma dropWhile_keeps_infix:
  assumes "sub \<noteq> []" and "\<not> P (hd sub)"
  shows "\<exists>ps'. dropWhile P (ps @ sub @ ss) = ps' @ sub @ ss"
proof (cases "\<forall>x\<in>set ps. P x")
  case True
  from assms obtain c cs where "sub = c # cs" and "\<not> P c" by (cases sub) auto
  then have "dropWhile P (ps @ sub @ ss) = [] @ sub @ ss"
    using True by (simp add: dropWhile_append)
  then show ?thesis by blast
next
  case False
  then have "dropWhile P (ps @ sub @ ss) = dropWhile P ps @ sub @ ss"
    by (auto simp: dropWhile_append)
  then show ?thesis by blast
qed

lemma py_strip_keeps_infix:
  assumes "sub \<noteq> []" and "\<not> isspace (hd sub)" and "\<not> isspace (last sub)"
    and "s = ps @ sub @ ss"
  shows "\<exists>ps' ss'. py_strip s = ps' @ sub @ ss'"
proof -
  obtain ps' where a: "dropWhile isspace s = ps' @ sub @ ss"
    using dropWhile_keeps_infix [of sub isspace ps ss] assms by auto
  have r: "rev (dropWhile isspace s) = rev ss @ rev sub @ rev ps'"
    using a by simp
  have "rev sub \<noteq> []" and "\<not> isspace (hd (rev sub))"
    using assms(1,3) by (simp_all add: hd_rev)
  then obtain qs where "dropWhile isspace (rev ss @ rev sub @ rev ps') = qs @ rev sub @ rev ps'"
    using dropWhile_keeps_infix [of "rev sub" isspace "rev ss" "rev ps'"] by auto
  then have "py_strip s = ps' @ sub @ rev qs"
    using r by (simp add: py_strip_def)
  then show ?thesis by blast
qed

lemma py_in_strip:
  assumes "sub \<noteq> []" and "\<not> isspace (hd sub)" and "\<not> isspace (last sub)"
    and "py_in sub s"
  shows "py_in sub (py_strip s)"
  using assms py_strip_keeps_infix unfolding py_in_iff by blast

lemma set_py_strip: "set (py_strip s) \<subseteq> set s"
proof -
  have "set (py_strip s) = set (dropWhile isspace (rev (dropWhile isspace s)))"
    by (simp add: py_strip_def)
  also have "\<dots> \<subseteq> set (rev (dropWhile isspace s))" by (rule set_dropWhileD [THEN subsetI])
  also have "\<dots> \<subseteq> set s" using set_dropWhileD by fastforce
  finally show ?thesis .
qed

lemma dropWhile_stripped_front: "s = [] \<or> \<not> P (hd s) \<Longrightarrow> dropWhile P s = s"
  by (cases s) auto

lemma py_strip_stripped: "stripped s \<Longrightarrow> py_strip s = s"
proof -
  assume st: "stripped s"
  show ?thesis
  proof (cases "s = []")
    case True then show ?thesis by (simp add: py_strip_def)
  next
    case False
    then have h: "\<not> isspace (hd s)" and l: "\<not> isspace (last s)" using st by (auto simp: stripped_def)
    have 1: "dropWhile isspace s = s" using h by (simp add: dropWhile_stripped_front)
    have "hd (rev s) = last s" using False by (simp add: hd_rev)
    then have 2: "dropWhile isspace (rev s) = rev s" using l by (simp add: dropWhile_stripped_front)
    show ?thesis by (simp add: py_strip_def 1 2)
  qed
qed

lemma stripped_py_strip: "stripped (py_strip s)"
proof -
  let ?a = "dropWhile isspace s"
  let ?b = "dropWhile isspace (rev ?a)"
  have sb: "py_strip s = rev ?b" by (simp add: py_strip_def)
  show ?thesis
  proof (cases "?b = []")
    case True then show ?thesis by (simp add: sb stripped_def)
  next
    case False
    then have hb: "\<not> isspace (hd ?b)" using hd_dropWhile by blast
    have "?a \<noteq> []" using False by (cases "?a = []") simp_all
    then have ha: "\<not> isspace (hd ?a)" using hd_dropWhile by blast
    from \<open>?a \<noteq> []\<close> obtain a as where aeq: "?a = a # as" by (cases ?a) auto
    then have "\<not> isspace a" using ha by simp
    then have "?b = dropWhile isspace (rev as) @ [a]"
      using aeq by (simp add: dropWhile_append)
    then have "hd (rev ?b) = a" by simp
    moreover have "last (rev ?b) = hd ?b" using False by (simp add: last_rev)
    ultimately show ?thesis using hb \<open>\<not> isspace a\<close> False by (simp add: sb stripped_def)
  qed
qed

lemma py_strip_idem [simp]: "py_strip (py_strip s) = py_strip s"
  by (simp add: py_strip_stripped stripped_py_strip)

lemma py_strip_lower_strip [simp]: "py_strip (py_lower (py_strip s)) = py_lower (py_strip s)"
  by (simp add: py_lower_strip)

section \<open>Facts about the dictionary and the grouping loop\<close>

lemma bind_result_Inr [simp]: "bind_result (Inr v) f = f v"
  by (simp add: bind_result_def)

lemma bind_result_Inl [simp]: "bind_result (Inl e) f = Inl e"
  by (simp add: bind_result_def)

lemma dict_last_entry:
  assumes "distinct (dict_keys d)" and "d \<noteq> []"
  shows "dict_get d (fst (last d)) = Inr (snd (last d))"
    and "dict_set d (fst (last d)) v = butlast d @ [(fst (last d), v)]"
proof -
  from assms(2) obtain ys k g where d: "d = ys @ [(k, g)]"
    by (cases d rule: rev_cases) auto
  have nk: "k \<notin> fst ` set ys" using assms(1) d by (auto simp: dict_keys_def)
  then have "map_of ys k = None" by (simp add: map_of_eq_None_iff)
  then show "dict_get d (fst (last d)) = Inr (snd (last d))"
    by (simp add: dict_get_def d map_add_def)
  have "map (\<lambda>(k', v'). if k' = k then (k', v) else (k', v')) ys = ys"
    using nk by (intro map_idI) (auto simp: image_iff)
  then show "dict_set d (fst (last d)) v = butlast d @ [(fst (last d), v)]"
    by (simp add: dict_set_def dict_contains_def dict_keys_def d)
qed

lemma process_item_skipped:
  "\<not> accepted item \<Longrightarrow> process_item jobs item = Inr jobs"
  by (simp add: process_item_def accepted_def)

lemma process_item_title:
  "accepted item \<Longrightarrow> has_class ''title'' item \<Longrightarrow>
   process_item jobs item =
     Inr (if title_key item \<in> set (dict_keys jobs) then jobs
          else jobs @ [(title_key item,
                 \<lparr>group_title = py_strip (extraction_text item), locations = [], descriptions = []\<rparr>)])"
  by (simp add: process_item_def accepted_def has_class_def title_key_def Let_def
      dict_contains_def dict_set_def)

lemma process_item_location:
  assumes "accepted item" and "has_class ''location'' item" and "distinct (dict_keys jobs)"
  shows "process_item jobs item = Inr (on_last (add_location (py_strip (extraction_text item))) jobs)"
proof (cases "jobs = []")
  case True
  then show ?thesis using assms by (simp add: process_item_def accepted_def has_class_def on_last_def)
next
  case False
  have k: "py_last (dict_keys jobs) = Inr (fst (last jobs))"
    using False by (simp add: py_last_def dict_keys_def last_map)
  have ne: "butlast jobs @ [last jobs] = jobs" using False by simp
  show ?thesis
    using assms False k dict_last_entry [OF assms(3) False] ne
    by (simp add: process_item_def accepted_def has_class_def on_last_def add_location_def Let_def)
qed

lemma process_item_description:
  assumes "accepted item" and "has_class ''description'' item" and "distinct (dict_keys jobs)"
  shows "process_item jobs item = Inr (on_last (add_description (py_strip (extraction_text item))) jobs)"
proof (cases "jobs = []")
  case True
  then show ?thesis using assms by (simp add: process_item_def accepted_def has_class_def on_last_def)
next
  case False
  have k: "py_last (dict_keys jobs) = Inr (fst (last jobs))"
    using False by (simp add: py_last_def dict_keys_def last_map)
  show ?thesis
    using assms False k dict_last_entry [OF assms(3) False]
    by (simp add: process_item_def accepted_def has_class_def on_last_def add_description_def Let_def)
qed

lemma process_item_other:
  "\<not> has_class ''title'' item \<Longrightarrow> \<not> has_class ''location'' item \<Longrightarrow>
   \<not> has_class ''description'' item \<Longrightarrow> process_item jobs item = Inr jobs"
  by (simp add: process_item_def has_class_def Let_def)

lemma dict_keys_on_last [simp]: "dict_keys (on_last f d) = dict_keys d"
  by (cases d rule: rev_cases) (simp_all add: on_last_def dict_keys_def)

lemma process_item_step:
  "distinct (dict_keys jobs) \<Longrightarrow> process_item jobs item = Inr (step jobs item)"
  using process_item_skipped process_item_title process_item_location
    process_item_description process_item_other
  by (simp add: step_def)

lemma distinct_step: "distinct (dict_keys jobs) \<Longrightarrow> distinct (dict_keys (step jobs item))"
  by (simp add: step_def) (simp add: dict_keys_def)

lemma process_items_foldl:
  "distinct (dict_keys jobs) \<Longrightarrow> process_items jobs items = Inr (foldl step jobs items)"
proof (induction items arbitrary: jobs)
  case Nil
  then show ?case by simp
next
  case (Cons item items)
  then show ?case by (simp add: process_item_step distinct_step)
qed

lemma distinct_foldl_step:
  "distinct (dict_keys jobs) \<Longrightarrow> distinct (dict_keys (foldl step jobs items))"
  by (induction items arbitrary: jobs) (simp_all add: distinct_step)

section \<open>First occurrences and the merge of descriptions\<close>

lemma first_occurrences_Nil [simp]: "first_occurrences key [] = []"
  by (simp add: first_occurrences_def)

lemma first_occurrences_snoc:
  "first_occurrences key (xs @ [x]) =
     first_occurrences key xs @ (if key x \<in> key ` set xs then [] else [x])"
proof -
  have a: "filter (\<lambda>i. key ((xs @ [x]) ! i) \<notin> key ` set (take i (xs @ [x]))) [0..<length xs]
        = filter (\<lambda>i. key (xs ! i) \<notin> key ` set (take i xs)) [0..<length xs]"
    by (rule filter_cong) (auto simp: nth_append)
  have b: "map (\<lambda>i. (xs @ [x]) ! i) (filter (\<lambda>i. key (xs ! i) \<notin> key ` set (take i xs)) [0..<length xs])
        = map (\<lambda>i. xs ! i) (filter (\<lambda>i. key (xs ! i) \<notin> key ` set (take i xs)) [0..<length xs])"
    by (rule map_cong) (auto simp: nth_append)
  have c: "take (length xs) (xs @ [x]) = xs" by simp
  show ?thesis
    unfolding first_occurrences_def
    by (simp only: length_append_singleton upt_Suc_append le0 filter_append map_append a b)
       (simp add: c)
qed

lemma set_first_occurrences: "key ` set (first_occurrences key xs) = key ` set xs"
  by (induction xs rule: rev_induct) (auto simp: first_occurrences_snoc)

lemma set_first_occurrences_subset: "set (first_occurrences key xs) \<subseteq> set xs"
  by (induction xs rule: rev_induct) (auto simp: first_occurrences_snoc)

lemma first_occurrences_id_set [simp]: "set (first_occurrences (\<lambda>x. x) xs) = set xs"
  using set_first_occurrences [of "\<lambda>x. x" xs] by simp

lemma distinct_first_occurrences: "distinct (map key (first_occurrences key xs))"
proof (induction xs rule: rev_induct)
  case Nil then show ?case by simp
next
  case (snoc x xs)
  then show ?case
    using set_first_occurrences [of key xs] by (auto simp: first_occurrences_snoc)
qed

lemma candidates_append: "candidates (ps @ qs) = candidates ps @ candidates qs"
  by (simp add: candidates_def)

lemma sentence_step_invariant:
  "sentence_step (first_occurrences spec_dedup_key cs, spec_dedup_key ` set cs) raw =
     (first_occurrences spec_dedup_key (cs @ candidates [raw]),
      spec_dedup_key ` set (cs @ candidates [raw]))"
  by (auto simp: sentence_step_def candidates_def Let_def first_occurrences_snoc
      spec_dedup_key_def re_sub_nonword_lower)

lemma sentence_loop_invariant:
  "foldl sentence_step (first_occurrences spec_dedup_key cs, spec_dedup_key ` set cs) pieces =
     (first_occurrences spec_dedup_key (cs @ candidates pieces),
      spec_dedup_key ` set (cs @ candidates pieces))"
proof (induction pieces arbitrary: cs)
  case Nil
  then show ?case by (simp add: candidates_def)
next
  case (Cons raw pieces)
  have "candidates (raw # pieces) = candidates [raw] @ candidates pieces"
    using candidates_append [of "[raw]" pieces] by simp
  then show ?case
    using Cons.IH [of "cs @ candidates [raw]"] by (simp add: sentence_step_invariant)
qed

lemma description_loop_invariant:
  "foldl description_step (first_occurrences spec_dedup_key cs, spec_dedup_key ` set cs) descs =
     (first_occurrences spec_dedup_key (cs @ spec_candidates descs),
      spec_dedup_key ` set (cs @ spec_candidates descs))"
proof (induction descs arbitrary: cs)
  case Nil
  then show ?case by (simp add: spec_candidates_def)
next
  case (Cons desc descs)
  have "spec_candidates (desc # descs) = candidates (re_split_sentences desc) @ spec_candidates descs"
    by (simp add: spec_candidates_def candidates_def)
  then show ?case
    using Cons.IH [of "cs @ candidates (re_split_sentences desc)"]
    by (simp add: description_step_def sentence_loop_invariant)
qed

lemma all_descriptions_eq:
  "fst (foldl description_step ([], {}) descs) =
     first_occurrences spec_dedup_key (spec_candidates descs)"
  using description_loop_invariant [of "[]" descs] by simp

lemma combine_descriptions_spec: "combine_descriptions descs = spec_merged descs"
  by (simp add: combine_descriptions_def spec_merged_def all_descriptions_eq Let_def
      py_endswith_dot)

lemma re_split_sentences_last:
  "dropWhile (\<lambda>c. \<not> is_terminator c) s = [] \<Longrightarrow>
   re_split_sentences s = [takeWhile (\<lambda>c. \<not> is_terminator c) s]"
  by (auto simp: re_split_sentences.simps [of s] Let_def)

lemma re_split_sentences_more:
  "dropWhile (\<lambda>c. \<not> is_terminator c) s \<noteq> [] \<Longrightarrow>
   re_split_sentences s = takeWhile (\<lambda>c. \<not> is_terminator c) s #
     re_split_sentences (dropWhile is_terminator (dropWhile (\<lambda>c. \<not> is_terminator c) s))"
  by (auto simp: re_split_sentences.simps [of s] Let_def)

lemma re_split_sentences_no_terminator:
  "piece \<in> set (re_split_sentences s) \<Longrightarrow> c \<in> set piece \<Longrightarrow> \<not> is_terminator c"
proof (induction s arbitrary: piece rule: re_split_sentences.induct)
  case (1 s)
  let ?rest = "dropWhile (\<lambda>c. \<not> is_terminator c) s"
  show ?case
  proof (cases "?rest = []")
    case True
    have "piece = takeWhile (\<lambda>c. \<not> is_terminator c) s"
      using "1.prems"(1) unfolding re_split_sentences_last [OF True] by simp
    then show ?thesis using "1.prems"(2) by (auto dest: set_takeWhileD)
  next
    case False
    have "piece = takeWhile (\<lambda>c. \<not> is_terminator c) s
        \<or> piece \<in> set (re_split_sentences (dropWhile is_terminator ?rest))"
      using "1.prems"(1) unfolding re_split_sentences_more [OF False] by auto
    then show ?thesis
    proof
      assume "piece = takeWhile (\<lambda>c. \<not> is_terminator c) s"
      then show ?thesis using "1.prems"(2) by (auto dest: set_takeWhileD)
    next
      assume "piece \<in> set (re_split_sentences (dropWhile is_terminator ?rest))"
      then show ?thesis using "1.IH" [OF refl refl False] "1.prems"(2) by blast
    qed
  qed
qed

lemma spec_candidates_props:
  assumes "sentence \<in> set (spec_candidates descs)"
  shows "10 < length sentence" and "\<forall>c\<in>set sentence. \<not> is_terminator c"
proof -
  from assms have l: "\<not> length sentence \<le> 10"
    and "sentence \<in> py_strip ` set (concat (map re_split_sentences descs))"
    by (simp_all add: spec_candidates_def)
  then obtain piece where s: "sentence = py_strip piece"
    and "piece \<in> set (concat (map re_split_sentences descs))" by blast
  then obtain desc where p: "piece \<in> set (re_split_sentences desc)" by auto
  show "10 < length sentence" using l by simp
  show "\<forall>c\<in>set sentence. \<not> is_terminator c"
    using re_split_sentences_no_terminator [OF p] set_py_strip [of piece] s by blast
qed

lemma set_py_join: "set (py_join sep xs) \<subseteq> set sep \<union> \<Union> (set ` set xs)"
  by (induction sep xs rule: py_join.induct) auto

lemma py_join_nonempty: "xs \<noteq> [] \<Longrightarrow> last xs \<noteq> [] \<Longrightarrow> py_join sep xs \<noteq> []"
  by (induction sep xs rule: py_join.induct) auto

lemma py_join_last: "xs \<noteq> [] \<Longrightarrow> last xs \<noteq> [] \<Longrightarrow> last (py_join sep xs) = last (last xs)"
proof (induction sep xs rule: py_join.induct)
  case (3 sep x y ys)
  have "py_join sep (y # ys) \<noteq> []" using "3.prems" py_join_nonempty [of "y # ys" sep] by simp
  then show ?case using 3 by simp
qed simp_all

lemma kept_sentences_props:
  assumes "sentence \<in> set (kept_sentences descs)"
  shows "10 < length sentence" and "\<forall>c\<in>set sentence. \<not> is_terminator c"
proof -
  have "sentence \<in> set (spec_candidates descs)"
    using assms set_first_occurrences_subset [of spec_dedup_key "spec_candidates descs"]
    unfolding kept_sentences_def by blast
  then show "10 < length sentence" and "\<forall>c\<in>set sentence. \<not> is_terminator c"
    by (rule spec_candidates_props)+
qed

lemma combine_descriptions_shape:
  "combine_descriptions descs =
     (if kept_sentences descs = [] then [] else py_join ''. '' (kept_sentences descs) @ ''.'')"
proof (cases "kept_sentences descs = []")
  case True
  then show ?thesis
    by (simp add: combine_descriptions_spec spec_merged_def kept_sentences_def)
next
  case False
  let ?ks = "kept_sentences descs"
  have m: "last ?ks \<in> set ?ks" using False by simp
  have ne: "last ?ks \<noteq> []" using kept_sentences_props(1) [OF m] by auto
  have "last (last ?ks) \<in> set (last ?ks)" using ne by simp
  then have "\<not> is_terminator (last (last ?ks))" using kept_sentences_props(2) [OF m] by blast
  then have "last (last ?ks) \<noteq> CHR ''.''" by (auto simp: is_terminator_def)
  then have "last (py_join ''. '' ?ks) \<noteq> CHR ''.''"
    using py_join_last [OF False ne] by simp
  moreover have "py_join ''. '' ?ks \<noteq> []" using py_join_nonempty [OF False ne] .
  ultimately show ?thesis
    using False by (simp add: combine_descriptions_spec spec_merged_def kept_sentences_def [symmetric] Let_def)
qed

lemma combine_descriptions_chars:
  "c \<in> set (combine_descriptions descs) \<Longrightarrow> c = CHR ''.'' \<or> c = CHR '' '' \<or> \<not> is_terminator c"
proof -
  assume a: "c \<in> set (combine_descriptions descs)"
  have ne: "kept_sentences descs \<noteq> []"
  proof
    assume "kept_sentences descs = []"
    then have "combine_descriptions descs = []" by (simp add: combine_descriptions_shape)
    then show False using a by simp
  qed
  then have "combine_descriptions descs = py_join ''. '' (kept_sentences descs) @ ''.''"
    by (simp add: combine_descriptions_shape)
  then have "c \<in> set (py_join ''. '' (kept_sentences descs)) \<or> c = CHR ''.''"
    using a by auto
  then consider "c \<in> set ''. ''" | sentence where "sentence \<in> set (kept_sentences descs)" "c \<in> set sentence"
    | "c = CHR ''.''"
    using set_py_join [of "''. ''" "kept_sentences descs"] by blast
  then show ?thesis
  proof cases
    case 1 then show ?thesis by auto
  next
    case 2 then show ?thesis using kept_sentences_props(2) by blast
  next
    case 3 then show ?thesis by simp
  qed
qed

lemma combine_descriptions_ends:
  "combine_descriptions descs = [] \<or> last (combine_descriptions descs) = CHR ''.''"
  by (simp add: combine_descriptions_shape)

lemma combine_descriptions_no_marks:
  "CHR ''!'' \<notin> set (combine_descriptions descs)" "CHR ''?'' \<notin> set (combine_descriptions descs)"
  using combine_descriptions_chars [of "CHR ''!''" descs] combine_descriptions_chars [of "CHR ''?''" descs]
  by (auto simp: is_terminator_def)

lemma consolidate_job_finalize: "consolidate_job jd = Inr (finalize (k, jd))"
  by (cases "locations jd") (simp_all add: consolidate_job_def finalize_def py_first_def)

lemma consolidate_all_map: "consolidate_all jobs = Inr (map finalize jobs)"
proof (induction jobs)
  case Nil then show ?case by simp
next
  case (Cons entry jobs)
  obtain k jd where "entry = (k, jd)" by (cases entry)
  then show ?case using Cons by (simp add: consolidate_job_finalize [of jd k])
qed

lemma consolidate_jobs_eq:
  "consolidate_jobs items = Inr (map finalize (foldl step [] items))"
  by (simp add: consolidate_jobs_def process_items_foldl dict_keys_def consolidate_all_map)

section \<open>Facts about the segmenter and the filter\<close>

lemma match_here_lits: "match_here (lits w) s \<longleftrightarrow> py_startswith (py_lower s) (py_lower w)"
proof (induction w arbitrary: s)
  case Nil
  then show ?case by (simp add: lits_def py_lower_def)
next
  case (Cons c w)
  then show ?case by (cases s) (auto simp: lits_def py_lower_def)
qed

lemma search_alt_lits: "search_alt (lits w) s \<longleftrightarrow> py_in (py_lower w) (py_lower s)"
proof (induction s)
  case Nil
  then show ?case by (cases w) (simp_all add: lits_def py_lower_def)
next
  case (Cons d ds)
  have "match_here (lits w) (d # ds) \<longleftrightarrow> py_startswith (py_lower (d # ds)) (py_lower w)"
    by (rule match_here_lits)
  then show ?case using Cons by (simp add: py_lower_def)
qed

lemma re_search_lits:
  "re_search (map lits ws) line \<longleftrightarrow> (\<exists>w\<in>set ws. py_in (py_lower w) (py_lower line))"
  by (simp add: re_search_def list_ex_iff search_alt_lits)

lemma lower_title_words: "w \<in> set title_words \<Longrightarrow> py_lower w = w"
  by (auto simp: title_words_def py_lower_def lower_char_def)

lemma lower_opening_words: "w \<in> set opening_words \<Longrightarrow> py_lower w = w"
  by (auto simp: opening_words_def py_lower_def lower_char_def)

lemma is_job_start_iff:
  "is_job_start line \<longleftrightarrow> (\<exists>w\<in>set (title_words @ opening_words). py_in w (py_lower line))"
proof -
  have "is_job_start line \<longleftrightarrow>
      re_search (map lits title_words) line \<or> re_search (map lits opening_words) line"
    by (simp add: is_job_start_def job_patterns_def)
  also have "\<dots> \<longleftrightarrow> (\<exists>w\<in>set title_words. py_in (py_lower w) (py_lower line))
      \<or> (\<exists>w\<in>set opening_words. py_in (py_lower w) (py_lower line))"
    by (simp only: re_search_lits)
  also have "\<dots> \<longleftrightarrow> (\<exists>w\<in>set title_words. py_in w (py_lower line))
      \<or> (\<exists>w\<in>set opening_words. py_in w (py_lower line))"
    using lower_title_words lower_opening_words by (metis (no_types, lifting))
  finally show ?thesis by auto
qed

lemma section_step_eq:
  "section_step (sections, current) raw =
     (if py_strip raw = [] then (sections, current)
      else if (\<exists>w\<in>set (title_words @ opening_words). py_in w (py_lower (py_strip raw)))
              \<and> current \<noteq> []
           then (sections @ [py_join [CHR 0x0A] current], [py_strip raw])
           else (sections, current @ [py_strip raw]))"
  by (simp only: section_step_def Let_def fst_conv snd_conv is_job_start_iff)

lemma sections_without_start:
  "\<forall>raw\<in>set raws. \<not> is_job_start (py_strip raw) \<Longrightarrow>
   fst (foldl section_step (sections, current) raws) = sections"
proof (induction raws arbitrary: current)
  case Nil
  then show ?case by simp
next
  case (Cons raw raws)
  then have "section_step (sections, current) raw = (sections, snd (section_step (sections, current) raw))"
    by (simp add: section_step_def Let_def)
  then show ?case using Cons by (metis foldl_Cons list.set_intros(2))
qed

lemma no_start_one_section:
  assumes "\<forall>raw\<in>set (py_split (CHR 0x0A) text). \<not> is_job_start (py_strip raw)"
  shows "length (extract_job_sections text) \<le> 1"
  using sections_without_start [OF assms, of "[]" "[]"]
  by (simp add: extract_job_sections_def Let_def)

lemma section_loop_lines:
  "foldl section_step st raws =
     foldl line_step st (filter (\<lambda>l. l \<noteq> []) (map py_strip raws))"
proof (induction raws arbitrary: st)
  case Nil
  then show ?case by simp
next
  case (Cons raw raws)
  have "section_step st raw = (if py_strip raw = [] then st else line_step st (py_strip raw))"
    by (simp add: section_step_def line_step_def Let_def)
  then show ?case using Cons by simp
qed

lemma split_before_closed:
  "\<forall>y\<in>set rest. \<not> P y \<Longrightarrow> split_before P (x # rest) = [x # rest]"
proof -
  assume a: "\<forall>y\<in>set rest. \<not> P y"
  then have t: "takeWhile (\<lambda>y. \<not> P y) rest = rest" by (simp add: takeWhile_eq_all_conv)
  have d: "dropWhile (\<lambda>y. \<not> P y) rest = []" using a by (simp add: dropWhile_eq_Nil_conv)
  show ?thesis by (simp only: split_before.simps t d)
qed

lemma split_before_at_start:
  assumes "\<forall>y\<in>set rest. \<not> P y" and "P l"
  shows "split_before P ((x # rest) @ l # ls) = (x # rest) # split_before P (l # ls)"
proof -
  have "takeWhile (\<lambda>y. \<not> P y) (rest @ l # ls) = rest"
    using assms by (simp add: takeWhile_append)
  moreover have "dropWhile (\<lambda>y. \<not> P y) (rest @ l # ls) = l # ls"
    using assms by (simp add: dropWhile_append)
  ultimately show ?thesis by simp
qed

lemma line_loop_open:
  assumes "cur \<noteq> []" and "\<forall>y\<in>set (tl cur). \<not> is_job_start y"
  shows "finish (foldl line_step (sections, cur) ls) =
     sections @ map (py_join [CHR 0x0A]) (split_before is_job_start (cur @ ls))"
  using assms
proof (induction ls arbitrary: sections cur)
  case Nil
  from Nil obtain x rest where c: "cur = x # rest" by (cases cur) auto
  have "\<forall>y\<in>set rest. \<not> is_job_start y" using Nil.prems(2) c by simp
  then have "split_before is_job_start cur = [cur]"
    unfolding c by (rule split_before_closed)
  then show ?case using Nil by (simp add: finish_def)
next
  case (Cons l ls)
  from Cons.prems obtain x rest where c: "cur = x # rest" by (cases cur) auto
  have r: "\<forall>y\<in>set rest. \<not> is_job_start y" using Cons.prems c by simp
  show ?case
  proof (cases "is_job_start l")
    case True
    have s: "line_step (sections, cur) l = (sections @ [py_join [CHR 0x0A] cur], [l])"
      using True Cons.prems by (simp add: line_step_def)
    have "finish (foldl line_step (sections @ [py_join [CHR 0x0A] cur], [l]) ls) =
        (sections @ [py_join [CHR 0x0A] cur]) @
          map (py_join [CHR 0x0A]) (split_before is_job_start ([l] @ ls))"
      by (rule Cons.IH) simp_all
    moreover have "split_before is_job_start (cur @ l # ls) = cur # split_before is_job_start (l # ls)"
      unfolding c using r True by (rule split_before_at_start)
    ultimately show ?thesis using s by simp
  next
    case False
    have s: "line_step (sections, cur) l = (sections, cur @ [l])"
      using False by (simp add: line_step_def)
    have "finish (foldl line_step (sections, cur @ [l]) ls) =
        sections @ map (py_join [CHR 0x0A]) (split_before is_job_start ((cur @ [l]) @ ls))"
      by (rule Cons.IH) (use False r c in auto)
    then show ?thesis using s by simp
  qed
qed

lemma line_loop:
  "finish (foldl line_step ([], []) ls) = map (py_join [CHR 0x0A]) (split_before is_job_start ls)"
proof (cases ls)
  case Nil
  then show ?thesis by (simp add: finish_def)
next
  case (Cons l ls')
  have "line_step ([], []) l = ([], [l])" by (simp add: line_step_def)
  moreover have "finish (foldl line_step ([], [l]) ls') =
      [] @ map (py_join [CHR 0x0A]) (split_before is_job_start ([l] @ ls'))"
    by (rule line_loop_open) simp_all
  ultimately show ?thesis using Cons by simp
qed

lemma length_split_before:
  "length (split_before P (x # xs)) = 1 + length (filter P xs)"
proof (induction "length xs" arbitrary: x xs rule: less_induct)
  case less
  let ?d = "dropWhile (\<lambda>y. \<not> P y) xs"
  have f: "filter P xs = filter P ?d"
  proof -
    have "filter P (takeWhile (\<lambda>y. \<not> P y) xs) = []"
      by (auto simp: filter_empty_conv dest: set_takeWhileD)
    then have "filter P (takeWhile (\<lambda>y. \<not> P y) xs @ ?d) = filter P ?d"
      by (simp only: filter_append append_Nil)
    then show ?thesis by (simp only: takeWhile_dropWhile_id)
  qed
  show ?case
  proof (cases ?d)
    case Nil
    have "split_before P (x # xs) = [x # takeWhile (\<lambda>y. \<not> P y) xs]"
      by (simp only: split_before.simps Nil)
    moreover have "filter P xs = []" using f by (simp only: Nil filter.simps)
    ultimately show ?thesis by simp
  next
    case (Cons y ys)
    then have py: "P y" by (simp add: dropWhile_eq_Cons_conv)
    have "length ys < length xs"
      using Cons length_dropWhile_le [of "\<lambda>y. \<not> P y" xs] by simp
    then have "length (split_before P (y # ys)) = 1 + length (filter P ys)"
      by (rule less.hyps)
    then show ?thesis using Cons f py by simp
  qed
qed

lemma spec_is_start_eq: "spec_is_start = is_job_start"
  by (rule ext) (simp add: spec_is_start_def is_job_start_iff)

lemma extract_job_sections_eq: "extract_job_sections page = spec_sections page"
proof -
  have "extract_job_sections page = finish (foldl section_step ([], []) (py_split (CHR 0x0A) page))"
    by (simp add: extract_job_sections_def finish_def Let_def)
  also have "\<dots> = finish (foldl line_step ([], []) (nonblank_lines page))"
    by (simp only: section_loop_lines nonblank_lines_def)
  also have "\<dots> = map (py_join [CHR 0x0A]) (split_before is_job_start (nonblank_lines page))"
    by (rule line_loop)
  finally show ?thesis by (simp add: spec_sections_def spec_is_start_eq)
qed

lemma length_spec_sections:
  "length (spec_sections page) =
     (case nonblank_lines page of [] \<Rightarrow> 0 | first # rest \<Rightarrow> 1 + length (filter spec_is_start rest))"
proof (cases "nonblank_lines page")
  case Nil
  then show ?thesis by (simp add: spec_sections_def)
next
  case (Cons first rest)
  have "length (spec_sections page) = length (split_before spec_is_start (first # rest))"
    by (simp only: spec_sections_def Cons length_map)
  also have "\<dots> = 1 + length (filter spec_is_start rest)" by (rule length_split_before)
  finally show ?thesis by (simp only: Cons list.case)
qed

lemma filter_loop:
  "foldl filter_step acc jobs =
     acc @ filter (\<lambda>j. (\<exists>keyword\<in>set job_title_keywords. py_in keyword (py_lower (title j)))
                       \<and> 50 < length (description j)) jobs"
  by (induction jobs arbitrary: acc) (simp_all add: filter_step_def Let_def list_ex_iff)

section \<open>Invariants of the grouping loop\<close>

lemma set_created_keys:
  "set (created_keys items) = title_key ` {i \<in> set items. accepted i \<and> has_class ''title'' i}"
  by (auto simp: created_keys_def)

lemma created_keys_snoc:
  "created_keys (items @ [x]) =
     (if accepted x \<and> has_class ''title'' x \<and> title_key x \<notin> set (created_keys items)
      then created_keys items @ [title_key x] else created_keys items)"
proof (cases "accepted x \<and> has_class ''title'' x")
  case True
  have s: "set (created_keys items) = set (map title_key (filter (\<lambda>i. accepted i \<and> has_class ''title'' i) items))"
    by (simp add: created_keys_def)
  show ?thesis
    using True unfolding s by (simp add: created_keys_def first_occurrences_snoc)
next
  case False
  then show ?thesis by (auto simp: created_keys_def)
qed

lemma dict_keys_step:
  "dict_keys (step jobs x) =
     (if accepted x \<and> has_class ''title'' x \<and> title_key x \<notin> set (dict_keys jobs)
      then dict_keys jobs @ [title_key x] else dict_keys jobs)"
  by (simp add: step_def) (simp add: dict_keys_def)

lemma dict_keys_foldl_step: "dict_keys (foldl step [] items) = created_keys items"
proof (induction items rule: rev_induct)
  case Nil
  then show ?case by (simp add: dict_keys_def created_keys_def)
next
  case (snoc x items)
  then show ?case by (simp add: dict_keys_step created_keys_snoc)
qed

lemma accepted_title_key:
  "accepted item \<longleftrightarrow> \<not> list_ex (\<lambda>term. py_in term (title_key item)) skip_terms"
  by (simp add: accepted_def is_skipped_def title_key_def)

lemma accepted_same_key: "title_key a = title_key b \<Longrightarrow> accepted a = accepted b"
  by (simp add: accepted_title_key)

lemma in_on_last:
  "(k, g') \<in> set (on_last f d) \<Longrightarrow> \<exists>g. (k, g) \<in> set d \<and> (g' = g \<or> g' = f g)"
proof (cases d rule: rev_cases)
  case Nil
  assume "(k, g') \<in> set (on_last f d)"
  then show ?thesis using Nil by (simp add: on_last_def)
next
  case (snoc ys y)
  assume "(k, g') \<in> set (on_last f d)"
  then have "(k, g') \<in> set ys \<or> (k, g') = (fst y, f (snd y))"
    using snoc by (auto simp: on_last_def)
  then show ?thesis
  proof
    assume "(k, g') \<in> set ys"
    then show ?thesis using snoc by auto
  next
    assume "(k, g') = (fst y, f (snd y))"
    then have "(k, snd y) \<in> set d" and "g' = f (snd y)" using snoc by auto
    then show ?thesis by blast
  qed
qed

lemma group_title_add [simp]:
  "group_title (add_location txt g) = group_title g"
  "group_title (add_description txt g) = group_title g"
  by (simp_all add: add_location_def add_description_def)

lemma in_step:
  assumes "(k, g') \<in> set (step jobs x)"
  shows "(\<exists>g. (k, g) \<in> set jobs \<and> group_title g' = group_title g) \<or>
         (accepted x \<and> has_class ''title'' x \<and> k = title_key x \<and> k \<notin> set (dict_keys jobs) \<and>
          group_title g' = py_strip (extraction_text x))"
proof -
  consider (same) "step jobs x = jobs"
    | (new) "accepted x" "has_class ''title'' x" "title_key x \<notin> set (dict_keys jobs)"
        "step jobs x = jobs @ [(title_key x,
           \<lparr>group_title = py_strip (extraction_text x), locations = [], descriptions = []\<rparr>)]"
    | (loc) "step jobs x = on_last (add_location (py_strip (extraction_text x))) jobs"
    | (desc) "step jobs x = on_last (add_description (py_strip (extraction_text x))) jobs"
  proof -
    assume c: "step jobs x = jobs \<Longrightarrow> thesis"
      "\<lbrakk>accepted x; has_class ''title'' x; title_key x \<notin> set (dict_keys jobs);
        step jobs x = jobs @ [(title_key x,
           \<lparr>group_title = py_strip (extraction_text x), locations = [], descriptions = []\<rparr>)]\<rbrakk>
       \<Longrightarrow> thesis"
      "step jobs x = on_last (add_location (py_strip (extraction_text x))) jobs \<Longrightarrow> thesis"
      "step jobs x = on_last (add_description (py_strip (extraction_text x))) jobs \<Longrightarrow> thesis"
    show thesis
    proof (cases "accepted x")
      case False
      then show ?thesis using c(1) by (simp add: step_def)
    next
      case True
      show ?thesis
      proof (cases "has_class ''title'' x")
        case t: True
        show ?thesis
        proof (cases "title_key x \<in> set (dict_keys jobs)")
          case True
          then show ?thesis using c(1) t \<open>accepted x\<close> by (simp add: step_def)
        next
          case False
          then show ?thesis using c(2) t \<open>accepted x\<close> by (simp add: step_def)
        qed
      next
        case nt: False
        show ?thesis
        proof (cases "has_class ''location'' x")
          case True
          then show ?thesis using c(3) nt \<open>accepted x\<close> by (simp add: step_def)
        next
          case nl: False
          show ?thesis
          proof (cases "has_class ''description'' x")
            case True
            then show ?thesis using c(4) nt nl \<open>accepted x\<close> by (simp add: step_def)
          next
            case False
            then show ?thesis using c(1) nt nl \<open>accepted x\<close> by (simp add: step_def)
          qed
        qed
      qed
    qed
  qed
  then show ?thesis
  proof cases
    case same
    then show ?thesis using assms by auto
  next
    case new
    then show ?thesis using assms by auto
  next
    case loc
    then show ?thesis using assms in_on_last [of k g' "add_location (py_strip (extraction_text x))" jobs]
      by auto
  next
    case desc
    then show ?thesis using assms in_on_last [of k g' "add_description (py_strip (extraction_text x))" jobs]
      by auto
  qed
qed

lemma find_snoc:
  "find P (xs @ [x]) = (case find P xs of Some y \<Rightarrow> Some y | None \<Rightarrow> if P x then Some x else None)"
  by (induction xs) simp_all

lemma group_title_first:
  "(k, g) \<in> set (foldl step [] items) \<Longrightarrow>
   \<exists>f. find (\<lambda>i. has_class ''title'' i \<and> title_key i = k) items = Some f \<and>
       group_title g = py_strip (extraction_text f)"
proof (induction items arbitrary: k g rule: rev_induct)
  case Nil
  then show ?case by simp
next
  case (snoc x items)
  let ?jobs = "foldl step [] items"
  let ?P = "\<lambda>i. has_class ''title'' i \<and> title_key i = k"
  from snoc.prems have "(k, g) \<in> set (step ?jobs x)" by simp
  then consider (old) g0 where "(k, g0) \<in> set ?jobs" "group_title g = group_title g0"
    | (new) "accepted x" "has_class ''title'' x" "k = title_key x" "k \<notin> set (dict_keys ?jobs)"
        "group_title g = py_strip (extraction_text x)"
    using in_step [of k g ?jobs x] by blast
  then show ?case
  proof cases
    case old
    then obtain f where "find ?P items = Some f" "group_title g0 = py_strip (extraction_text f)"
      using snoc.IH by blast
    then show ?thesis using old by (simp add: find_snoc)
  next
    case new
    have "find ?P items = None"
    proof (rule ccontr)
      assume "find ?P items \<noteq> None"
      then obtain i where i: "i \<in> set items" "has_class ''title'' i" "title_key i = k"
        by (auto simp: find_None_iff)
      then have "accepted i" using new(1,3) accepted_same_key [of i x] by simp
      then have "k \<in> set (created_keys items)" using i by (auto simp: set_created_keys)
      then show False using new(4) by (simp add: dict_keys_foldl_step)
    qed
    then show ?thesis using new by (simp add: find_snoc)
  qed
qed

lemma group_title_accepted:
  "(k, g) \<in> set (foldl step [] items) \<Longrightarrow> \<not> is_skipped (group_title g)"
proof (induction items arbitrary: k g rule: rev_induct)
  case Nil
  then show ?case by simp
next
  case (snoc x items)
  from snoc.prems have "(k, g) \<in> set (step (foldl step [] items) x)" by simp
  then show ?case using in_step [of k g "foldl step [] items" x] snoc.IH
    by (auto simp: accepted_def)
qed

lemma skip_terms_shape:
  "w \<in> set skip_terms \<Longrightarrow> w \<noteq> [] \<and> \<not> isspace (hd w) \<and> \<not> isspace (last w)"
  by (auto simp: skip_terms_def isspace_def)

lemma is_skipped_strip: "is_skipped txt \<Longrightarrow> is_skipped (py_strip txt)"
proof -
  assume "is_skipped txt"
  then obtain w where t: "w \<in> set skip_terms" and "py_in w (py_lower txt)"
    by (auto simp: is_skipped_def list_ex_iff)
  then have "py_in w (py_strip (py_lower txt))"
    using skip_terms_shape [OF t] py_in_strip by blast
  then show ?thesis using t by (auto simp: is_skipped_def list_ex_iff py_lower_strip)
qed

lemma process_items_run: "process_items [] items = Inr (foldl step [] items)"
  by (simp add: process_items_foldl dict_keys_def)

lemma distinct_run: "distinct (dict_keys (foldl step [] items))"
  by (simp add: dict_keys_foldl_step created_keys_def distinct_first_occurrences [of "\<lambda>k. k", simplified])

lemma title_again_noop:
  "py_lower (extraction_class item) = ''title'' \<Longrightarrow> dict_contains jobs (title_key item) \<Longrightarrow>
   process_item jobs item = Inr jobs"
  by (simp add: process_item_def title_key_def Let_def)

section \<open>The properties of the specification\<close>



text \<open>
  Claim C2, as amended. Titles are grouped by equality of the trimmed, lowercased text. The
  keys of the groups are distinct and the jobs correspond to the groups one to one. Every
  title item (class \<open>title\<close> up to case) whose trimmed text passes the test against
  \<open>skip_terms\<close> has a group under its key, and the title of that group is the trimmed text,
  in its original casing, of the first title item of the sequence with that key. A title
  item whose key is already present leaves the dictionary unchanged. The key is the
  lowercased and trimmed text of the item.
\<close>

theorem title_grouping:
  "\<exists>groups jobs.
     process_items [] items = Inr groups \<and> consolidate_jobs items = Inr jobs \<and>
     distinct (dict_keys groups) \<and>
     map title jobs = map (\<lambda>entry. group_title (snd entry)) groups \<and>
     (\<forall>item\<in>set items.
        py_lower (extraction_class item) = ''title'' \<and>
        \<not> is_skipped (py_strip (extraction_text item)) \<longrightarrow>
        (\<exists>jd first.
           (title_key item, jd) \<in> set groups \<and>
           find (\<lambda>i. py_lower (extraction_class i) = ''title'' \<and> title_key i = title_key item) items
             = Some first \<and>
           group_title jd = py_strip (extraction_text first))) \<and>
     (\<forall>item. py_lower (extraction_class item) = ''title'' \<and> dict_contains groups (title_key item) \<longrightarrow>
        process_item groups item = Inr groups) \<and>
     (\<forall>item. title_key item = py_strip (py_lower (extraction_text item)))"
proof -
  let ?groups = "foldl step [] items"
  have g: "title_key item = py_strip (py_lower (extraction_text item))" for item
    by (simp add: title_key_def py_lower_strip)
  have a: "process_items [] items = Inr ?groups" by (rule process_items_run)
  have b: "consolidate_jobs items = Inr (map finalize ?groups)" by (rule consolidate_jobs_eq)
  have c: "distinct (dict_keys ?groups)" by (rule distinct_run)
  have d: "map title (map finalize ?groups) = map (\<lambda>entry. group_title (snd entry)) ?groups"
    by (simp add: finalize_def)
  have e: "\<exists>jd first. (title_key item, jd) \<in> set ?groups \<and>
           find (\<lambda>i. py_lower (extraction_class i) = ''title'' \<and> title_key i = title_key item) items
             = Some first \<and>
           group_title jd = py_strip (extraction_text first)"
    if m: "item \<in> set items" and h: "py_lower (extraction_class item) = ''title''"
      "\<not> is_skipped (py_strip (extraction_text item))" for item
  proof -
    have "title_key item \<in> set (created_keys items)"
      using m h by (auto simp: set_created_keys accepted_def has_class_def)
    then have "title_key item \<in> set (dict_keys ?groups)" by (simp add: dict_keys_foldl_step)
    then obtain jd where in_g: "(title_key item, jd) \<in> set ?groups"
      by (auto simp: dict_keys_def)
    then obtain first where
      "find (\<lambda>i. has_class ''title'' i \<and> title_key i = title_key item) items = Some first"
      "group_title jd = py_strip (extraction_text first)"
      using group_title_first by blast
    then show ?thesis using in_g unfolding has_class_def by blast
  qed
  have f: "process_item ?groups item = Inr ?groups"
    if "py_lower (extraction_class item) = ''title''" "dict_contains ?groups (title_key item)" for item
    using that by (rule title_again_noop)
  show ?thesis
    using a b c d e f g by blast
qed

theorem title_grouping_witness:
  "\<exists>groups jd. process_items [] casing_example = Inr groups \<and> (''dev'', jd) \<in> set groups \<and>
     group_title jd = ''Dev'' \<and> distinct (dict_keys groups)"
proof -
  let ?item = "\<lparr>extraction_class = ''title'', extraction_text = ''dev ''\<rparr>"
  let ?first = "\<lparr>extraction_class = ''title'', extraction_text = ''Dev''\<rparr>"
  obtain groups jobs where g: "process_items [] casing_example = Inr groups"
    and dist: "distinct (dict_keys groups)"
    and all: "\<forall>item\<in>set casing_example.
        py_lower (extraction_class item) = ''title'' \<and>
        \<not> is_skipped (py_strip (extraction_text item)) \<longrightarrow>
        (\<exists>jd first.
           (title_key item, jd) \<in> set groups \<and>
           find (\<lambda>i. py_lower (extraction_class i) = ''title'' \<and> title_key i = title_key item)
             casing_example = Some first \<and>
           group_title jd = py_strip (extraction_text first))"
    using title_grouping [of casing_example] by blast
  have m: "?item \<in> set casing_example" by (simp add: casing_example_def)
  have h1: "py_lower (extraction_class ?item) = ''title''" by code_simp
  have h2: "\<not> is_skipped (py_strip (extraction_text ?item))" by code_simp
  have k: "title_key ?item = ''dev''" by code_simp
  have fnd: "find (\<lambda>i. py_lower (extraction_class i) = ''title'' \<and> title_key i = ''dev'')
      casing_example = Some ?first" by code_simp
  have t: "py_strip (extraction_text ?first) = ''Dev''" by code_simp
  from all m h1 h2 obtain jd first where
    "(title_key ?item, jd) \<in> set groups"
    "find (\<lambda>i. py_lower (extraction_class i) = ''title'' \<and> title_key i = title_key ?item)
       casing_example = Some first"
    "group_title jd = py_strip (extraction_text first)"
    by blast
  then have "(''dev'', jd) \<in> set groups" and "group_title jd = ''Dev''"
    using k fnd t by simp_all
  then show ?thesis using g dist by blast
qed

text \<open>
  Claim C2 as stated fails in three ways: two title items with equal normalised texts
  that contain a skip term have no group at all; the title of a job is the trimmed text
  of the item, not the text itself; and an item of class \<open>TITLE\<close> counts as a title, so
  that it, and not the first item of class \<open>title\<close>, names the job.
\<close>

theorem title_grouping_counterexample:
  "py_lower (py_strip ''Figma Lead'') = py_lower (py_strip ''figma lead'') \<and>
   consolidate_jobs [\<lparr>extraction_class = ''title'', extraction_text = ''Figma Lead''\<rparr>,
                     \<lparr>extraction_class = ''title'', extraction_text = ''figma lead''\<rparr>] = Inr [] \<and>
   consolidate_jobs [\<lparr>extraction_class = ''title'', extraction_text = '' Dev''\<rparr>]
     = Inr [\<lparr>title = ''Dev'', location = ''None'', description = ''''\<rparr>] \<and>
   consolidate_jobs [\<lparr>extraction_class = ''TITLE'', extraction_text = ''DEV''\<rparr>,
                     \<lparr>extraction_class = ''title'', extraction_text = ''Dev''\<rparr>]
     = Inr [\<lparr>title = ''DEV'', location = ''None'', description = ''''\<rparr>]"
  by code_simp

text \<open>
  Claim C3. A location or description item that passes the test against \<open>skip_terms\<close> and
  arrives when the dictionary is not empty changes only the group of the key inserted
  last, which is the last of \<open>created_keys\<close>: the most recently created title, not the
  title item nearest before it. A description is appended; a location is appended only
  if it is not empty and not already among the locations of that group.
\<close>

theorem attach_to_last_inserted_key:
  "\<exists>jobs. process_items [] before = Inr jobs \<and>
     dict_keys jobs = created_keys before \<and>
     (jobs \<noteq> [] \<and> \<not> is_skipped (py_strip (extraction_text item)) \<longrightarrow>
        fst (last jobs) = last (created_keys before) \<and>
        (py_lower (extraction_class item) = ''location'' \<longrightarrow>
           process_items [] (before @ [item]) =
             Inr (butlast jobs @ [(fst (last jobs), (snd (last jobs))
               \<lparr>locations :=
                  (if py_strip (extraction_text item) \<noteq> [] \<and>
                      py_strip (extraction_text item) \<notin> set (locations (snd (last jobs)))
                   then locations (snd (last jobs)) @ [py_strip (extraction_text item)]
                   else locations (snd (last jobs)))\<rparr>)])) \<and>
        (py_lower (extraction_class item) = ''description'' \<longrightarrow>
           process_items [] (before @ [item]) =
             Inr (butlast jobs @ [(fst (last jobs), (snd (last jobs))
               \<lparr>descriptions :=
                  descriptions (snd (last jobs)) @ [py_strip (extraction_text item)]\<rparr>)])))"
proof -
  let ?jobs = "foldl step [] before"
  have j: "process_items [] before = Inr ?jobs" by (rule process_items_run)
  have k: "dict_keys ?jobs = created_keys before" by (rule dict_keys_foldl_step)
  have run: "process_items [] (before @ [item]) = Inr (step ?jobs item)"
    by (simp add: process_items_run)
  have l: "fst (last ?jobs) = last (created_keys before)" if "?jobs \<noteq> []"
    using k that by (simp add: dict_keys_def last_map [symmetric])
  have loc: "step ?jobs item = butlast ?jobs @ [(fst (last ?jobs), (snd (last ?jobs))
           \<lparr>locations :=
              (if py_strip (extraction_text item) \<noteq> [] \<and>
                  py_strip (extraction_text item) \<notin> set (locations (snd (last ?jobs)))
               then locations (snd (last ?jobs)) @ [py_strip (extraction_text item)]
               else locations (snd (last ?jobs)))\<rparr>)]"
    if "?jobs \<noteq> []" "\<not> is_skipped (py_strip (extraction_text item))"
      "py_lower (extraction_class item) = ''location''"
    using that by (simp add: step_def accepted_def has_class_def on_last_def add_location_def)
  have desc: "step ?jobs item = butlast ?jobs @ [(fst (last ?jobs), (snd (last ?jobs))
           \<lparr>descriptions :=
              descriptions (snd (last ?jobs)) @ [py_strip (extraction_text item)]\<rparr>)]"
    if "?jobs \<noteq> []" "\<not> is_skipped (py_strip (extraction_text item))"
      "py_lower (extraction_class item) = ''description''"
    using that by (simp add: step_def accepted_def has_class_def on_last_def add_description_def)
  show ?thesis
    using j k l loc desc unfolding run by blast
qed

text \<open>
  In the witness the title nearest before the description is \<open>manager\<close>, a repetition
  of the first title; the description goes to \<open>developer\<close>, the key inserted last.
\<close>

theorem attach_to_last_inserted_key_witness:
  "process_items [] (repeated_title_example @
       [\<lparr>extraction_class = ''description'', extraction_text = ''Leads the weekly review''\<rparr>]) =
     Inr [(''manager'', \<lparr>group_title = ''Manager'', locations = [], descriptions = []\<rparr>),
          (''developer'', \<lparr>group_title = ''Developer'', locations = [],
             descriptions = [''Leads the weekly review'']\<rparr>)] \<and>
   last (created_keys repeated_title_example) = ''developer''"
proof -
  let ?item = "\<lparr>extraction_class = ''description'', extraction_text = ''Leads the weekly review''\<rparr>"
  let ?jobs = "[(''manager'', \<lparr>group_title = ''Manager'', locations = [], descriptions = []\<rparr>),
          (''developer'', \<lparr>group_title = ''Developer'', locations = [], descriptions = []\<rparr>)]"
  have h1: "process_items [] repeated_title_example = Inr ?jobs" by code_simp
  have h2: "?jobs \<noteq> []" by simp
  have h3: "\<not> is_skipped (py_strip (extraction_text ?item))" by code_simp
  have c: "py_lower (extraction_class ?item) = ''description''" by code_simp
  have t: "py_strip (extraction_text ?item) = ''Leads the weekly review''" by code_simp
  obtain jobs where j: "process_items [] repeated_title_example = Inr jobs"
    and r: "jobs \<noteq> [] \<and> \<not> is_skipped (py_strip (extraction_text ?item)) \<longrightarrow>
        fst (last jobs) = last (created_keys repeated_title_example) \<and>
        (py_lower (extraction_class ?item) = ''description'' \<longrightarrow>
           process_items [] (repeated_title_example @ [?item]) =
             Inr (butlast jobs @ [(fst (last jobs), (snd (last jobs))
               \<lparr>descriptions :=
                  descriptions (snd (last jobs)) @ [py_strip (extraction_text ?item)]\<rparr>)]))"
    using attach_to_last_inserted_key [of repeated_title_example ?item] by blast
  have e: "jobs = ?jobs" using j h1 by simp
  from r h2 h3 have "fst (last ?jobs) = last (created_keys repeated_title_example)"
    unfolding e by blast
  then have k: "last (created_keys repeated_title_example) = ''developer''" by simp
  from r h2 h3 c have "process_items [] (repeated_title_example @ [?item]) =
      Inr (butlast ?jobs @ [(fst (last ?jobs), (snd (last ?jobs))
           \<lparr>descriptions := descriptions (snd (last ?jobs)) @ [py_strip (extraction_text ?item)]\<rparr>)])"
    unfolding e by blast
  then show ?thesis using k t by simp
qed

text \<open>
  Claim C4. The filter keeps a job if and only if its lowercased title contains one of
  \<open>job_title_keywords\<close> and its description has more than 50 characters; the result is
  the sublist of the kept jobs, in their order and unchanged. A description of exactly 50
  characters is excluded and one of 51 is included.
\<close>

theorem filter_keeps_iff:
  "filter_jobs jobs =
     filter (\<lambda>j. (\<exists>keyword\<in>set job_title_keywords. py_in keyword (py_lower (title j)))
                   \<and> 50 < length (description j)) jobs \<and>
   (title j = ''Software Engineer'' \<and> length (description j) = 50 \<longrightarrow> filter_jobs [j] = []) \<and>
   (title j = ''Software Engineer'' \<and> length (description j) = 51 \<longrightarrow> filter_jobs [j] = [j]) \<and>
   (title j = ''Office Cleaner'' \<longrightarrow> filter_jobs [j] = [])"
proof -
  have a: "filter_jobs js =
     filter (\<lambda>j. (\<exists>keyword\<in>set job_title_keywords. py_in keyword (py_lower (title j)))
                   \<and> 50 < length (description j)) js" for js
    using filter_loop [of "[]" js] by (simp add: filter_jobs_def)
  have e: "\<exists>keyword\<in>set job_title_keywords. py_in keyword (py_lower ''Software Engineer'')"
    by code_simp
  have c: "\<not> (\<exists>keyword\<in>set job_title_keywords. py_in keyword (py_lower ''Office Cleaner''))"
    by code_simp
  show ?thesis
    using e c by (simp add: a)
qed

theorem filter_keeps_iff_witness:
  "filter_jobs filter_example =
     [\<lparr>title = ''Software Engineer'', location = ''None'', description = replicate 51 (CHR ''x'')\<rparr>]"
proof -
  let ?a = "\<lparr>title = ''Software Engineer'', location = ''None'', description = replicate 51 (CHR ''x'')\<rparr>"
  let ?b = "\<lparr>title = ''Software Engineer'', location = ''None'', description = replicate 50 (CHR ''x'')\<rparr>"
  let ?c = "\<lparr>title = ''Office Cleaner'', location = ''Lahore'', description = replicate 80 (CHR ''x'')\<rparr>"
  have fa: "filter_jobs [?a] = [?a]" using filter_keeps_iff [of "[]" ?a] by simp
  have fb: "filter_jobs [?b] = []" using filter_keeps_iff [of "[]" ?b] by simp
  have fc: "filter_jobs [?c] = []" using filter_keeps_iff [of "[]" ?c] by simp
  have split: "filter_jobs (xs @ ys) = filter_jobs xs @ filter_jobs ys" for xs ys
    using filter_keeps_iff [of "xs @ ys"] filter_keeps_iff [of xs] filter_keeps_iff [of ys]
    by simp
  have "filter_jobs filter_example = filter_jobs [?a] @ filter_jobs [?b] @ filter_jobs [?c]"
    using split [of "[?a]" "[?b, ?c]"] split [of "[?b]" "[?c]"] by (simp add: filter_example_def)
  then show ?thesis using fa fb fc by simp
qed

text \<open>
  Claim C5. A trimmed line that is not blank is a section start if and only if its
  lowercased text contains one of the words of the first two pattern groups. The step
  of the loop depends on nothing else: it closes the current section only at a section
  start and only when the current section is not empty. The segmenter as a whole returns
  \<open>spec_sections\<close>: the trimmed, non-blank lines of the page, cut before every section
  start other than the first line and nowhere else, so that the number of sections is one
  more than the number of section starts after the first line, whatever the other two
  pattern groups match.
\<close>

theorem section_start_iff:
  "(is_job_start line \<longleftrightarrow>
      (\<exists>w\<in>set (title_words @ opening_words). py_in w (py_lower line))) \<and>
   section_step (sections, current) raw =
     (if py_strip raw = [] then (sections, current)
      else if (\<exists>w\<in>set (title_words @ opening_words). py_in w (py_lower (py_strip raw)))
              \<and> current \<noteq> []
           then (sections @ [py_join [CHR 0x0A] current], [py_strip raw])
           else (sections, current @ [py_strip raw])) \<and>
   ((\<forall>l\<in>set (py_split (CHR 0x0A) page).
        \<not> (\<exists>w\<in>set (title_words @ opening_words). py_in w (py_lower (py_strip l)))) \<longrightarrow>
      length (extract_job_sections page) \<le> 1) \<and>
   extract_job_sections page = spec_sections page \<and>
   length (extract_job_sections page) =
     (case nonblank_lines page of [] \<Rightarrow> 0
      | first # rest \<Rightarrow> 1 + length (filter spec_is_start rest))"
proof -
  have "length (extract_job_sections page) \<le> 1"
    if "\<forall>l\<in>set (py_split (CHR 0x0A) page).
        \<not> (\<exists>w\<in>set (title_words @ opening_words). py_in w (py_lower (py_strip l)))"
    using that no_start_one_section [of page] by (simp only: is_job_start_iff)
  moreover have "length (extract_job_sections page) =
     (case nonblank_lines page of [] \<Rightarrow> 0
      | first # rest \<Rightarrow> 1 + length (filter spec_is_start rest))"
    by (simp only: extract_job_sections_eq length_spec_sections)
  ultimately show ?thesis
    using is_job_start_iff section_step_eq extract_job_sections_eq by blast
qed

text \<open>
  In the witness the first page is split once, before the line with \<open>HIRING\<close>, and not at
  the lines that match the third and the fourth pattern group; the second page begins
  with a section start and stays in one piece.
\<close>

theorem section_start_iff_witness:
  "re_search requirement_pattern ''Requirements: 3 years experience'' \<and>
   re_search place_pattern ''Lahore or remote'' \<and>
   section_step ([], [''About us'']) ''Requirements: 3 years experience''
     = ([], [''About us'', ''Requirements: 3 years experience'']) \<and>
   section_step ([], [''About us'']) ''We are HIRING a Data Analyst''
     = ([''About us''], [''We are HIRING a Data Analyst'']) \<and>
   section_step ([], []) ''We are HIRING a Data Analyst''
     = ([], [''We are HIRING a Data Analyst'']) \<and>
   length (extract_job_sections (''Requirements'' @ [CHR 0x0A] @ ''Lahore'')) \<le> 1 \<and>
   extract_job_sections section_example =
     [''About us'' @ [CHR 0x0A] @ ''Requirements: 3 years experience'' @ [CHR 0x0A] @
        ''Lahore or remote'',
      ''We are HIRING a Data Analyst'' @ [CHR 0x0A] @ ''Apply today''] \<and>
   extract_job_sections leading_start_example =
     [''Hiring'' @ [CHR 0x0A] @ ''Intro'' @ [CHR 0x0A] @ ''Requirements''] \<and>
   length (extract_job_sections section_example) = 2"
proof -
  have p1: "re_search requirement_pattern ''Requirements: 3 years experience''" by code_simp
  have p2: "re_search place_pattern ''Lahore or remote''" by code_simp
  have s1: "py_strip ''Requirements: 3 years experience'' = ''Requirements: 3 years experience''"
    by code_simp
  have s2: "py_strip ''We are HIRING a Data Analyst'' = ''We are HIRING a Data Analyst''"
    by code_simp
  have n1: "\<not> (\<exists>w\<in>set (title_words @ opening_words).
      py_in w (py_lower ''Requirements: 3 years experience''))" by code_simp
  have y2: "\<exists>w\<in>set (title_words @ opening_words).
      py_in w (py_lower ''We are HIRING a Data Analyst'')" by code_simp
  have j: "py_join [CHR 0x0A] [''About us''] = ''About us''" by simp
  have a: "section_step ([], [''About us'']) ''Requirements: 3 years experience''
     = ([], [''About us'', ''Requirements: 3 years experience''])"
    using section_start_iff [of "[]" "[]" "[''About us'']" "''Requirements: 3 years experience''" "[]"]
      s1 n1 by simp
  have b: "section_step ([], [''About us'']) ''We are HIRING a Data Analyst''
     = ([''About us''], [''We are HIRING a Data Analyst''])"
    using section_start_iff [of "[]" "[]" "[''About us'']" "''We are HIRING a Data Analyst''" "[]"]
      s2 y2 j by simp
  have c: "section_step ([], []) ''We are HIRING a Data Analyst''
     = ([], [''We are HIRING a Data Analyst''])"
    using section_start_iff [of "[]" "[]" "[]" "''We are HIRING a Data Analyst''" "[]"]
      s2 by simp
  have h: "\<forall>l\<in>set (py_split (CHR 0x0A) (''Requirements'' @ [CHR 0x0A] @ ''Lahore'')).
        \<not> (\<exists>w\<in>set (title_words @ opening_words). py_in w (py_lower (py_strip l)))"
    by code_simp
  have d: "length (extract_job_sections (''Requirements'' @ [CHR 0x0A] @ ''Lahore'')) \<le> 1"
    using section_start_iff [of "[]" "[]" "[]" "[]" "''Requirements'' @ [CHR 0x0A] @ ''Lahore''"] h
    by blast
  have "extract_job_sections section_example = spec_sections section_example"
    using section_start_iff [of "[]" "[]" "[]" "[]" section_example] by blast
  also have "spec_sections section_example =
     [''About us'' @ [CHR 0x0A] @ ''Requirements: 3 years experience'' @ [CHR 0x0A] @
        ''Lahore or remote'',
      ''We are HIRING a Data Analyst'' @ [CHR 0x0A] @ ''Apply today'']"
    by code_simp
  finally have e: "extract_job_sections section_example =
     [''About us'' @ [CHR 0x0A] @ ''Requirements: 3 years experience'' @ [CHR 0x0A] @
        ''Lahore or remote'',
      ''We are HIRING a Data Analyst'' @ [CHR 0x0A] @ ''Apply today'']" .
  have "extract_job_sections leading_start_example = spec_sections leading_start_example"
    using section_start_iff [of "[]" "[]" "[]" "[]" leading_start_example] by blast
  also have "spec_sections leading_start_example =
     [''Hiring'' @ [CHR 0x0A] @ ''Intro'' @ [CHR 0x0A] @ ''Requirements'']"
    by code_simp
  finally have f: "extract_job_sections leading_start_example =
     [''Hiring'' @ [CHR 0x0A] @ ''Intro'' @ [CHR 0x0A] @ ''Requirements'']" .
  have g: "length (extract_job_sections section_example) = 2" using e by simp
  show ?thesis using p1 p2 a b c d e f g by blast
qed


text \<open>
  Claim C7, as amended. The sequence title \<open>Dev\<close>, location \<open>Lahore\<close>, title \<open>dev \<close>,
  description \<open>X.\<close> gives exactly one job, with title \<open>Dev\<close> and location \<open>Lahore\<close>; its
  description is empty, because the only sentence \<open>X\<close> has no more than 10 characters.
\<close>

theorem grouping_example_result:
  "consolidate_jobs grouping_example =
     Inr [\<lparr>title = ''Dev'', location = ''Lahore'', description = []\<rparr>]"
  by code_simp

text \<open>
  Claim C7 as stated fails: the description of that job does not contain \<open>X.\<close>.
\<close>

theorem grouping_example_counterexample:
  "consolidate_jobs grouping_example =
     Inr [\<lparr>title = ''Dev'', location = ''Lahore'', description = []\<rparr>] \<and>
   \<not> py_in ''X.'' (description \<lparr>title = ''Dev'', location = ''Lahore'', description = []\<rparr>)"
proof -
  have "consolidate_jobs grouping_example =
     Inr [\<lparr>title = ''Dev'', location = ''Lahore'', description = []\<rparr>]"
    by code_simp
  then show ?thesis by simp
qed

text \<open>
  Claim C8. An item of any class whose text contains one of \<open>skip_terms\<close>, up to case, is
  skipped: removing it from the sequence does not change the result. No job is ever
  titled \<open>Web Design Services\<close>.
\<close>

theorem skipped_fragment_has_no_effect:
  "(is_skipped (extraction_text item) \<longrightarrow>
      consolidate_jobs (before @ item # after) = consolidate_jobs (before @ after)) \<and>
   (\<exists>jobs. consolidate_jobs items = Inr jobs \<and> ''Web Design Services'' \<notin> title ` set jobs)"
proof -
  have a: "consolidate_jobs (before @ item # after) = consolidate_jobs (before @ after)"
    if "is_skipped (extraction_text item)"
  proof -
    have "\<not> accepted item" using that is_skipped_strip by (simp add: accepted_def)
    then have "step js item = js" for js by (simp add: step_def)
    then show ?thesis by (simp add: consolidate_jobs_eq)
  qed
  have b: "''Web Design Services'' \<notin> title ` set (map finalize (foldl step [] items))"
  proof
    assume "''Web Design Services'' \<in> title ` set (map finalize (foldl step [] items))"
    then obtain k jd where "(k, jd) \<in> set (foldl step [] items)"
      and "group_title jd = ''Web Design Services''"
      by (auto simp: finalize_def)
    then have "\<not> is_skipped ''Web Design Services''" using group_title_accepted by metis
    moreover have "is_skipped ''Web Design Services''" by code_simp
    ultimately show False by simp
  qed
  show ?thesis using a b consolidate_jobs_eq by blast
qed

theorem skipped_fragment_has_no_effect_witness:
  "is_skipped ''Web Design Services'' \<and>
   consolidate_jobs [\<lparr>extraction_class = ''title'', extraction_text = ''Dev''\<rparr>,
                     \<lparr>extraction_class = ''title'', extraction_text = ''Web Design Services''\<rparr>,
                     \<lparr>extraction_class = ''location'', extraction_text = ''Lahore''\<rparr>]
     = Inr [\<lparr>title = ''Dev'', location = ''Lahore'', description = []\<rparr>]"
proof -
  let ?a = "\<lparr>extraction_class = ''title'', extraction_text = ''Dev''\<rparr>"
  let ?w = "\<lparr>extraction_class = ''title'', extraction_text = ''Web Design Services''\<rparr>"
  let ?l = "\<lparr>extraction_class = ''location'', extraction_text = ''Lahore''\<rparr>"
  let ?out = "[\<lparr>title = ''Dev'', location = ''Lahore'', description = []\<rparr>]"
  have s: "is_skipped (extraction_text ?w)" by code_simp
  have r: "consolidate_jobs ([?a] @ [?l]) = Inr ?out" by code_simp
  have e: "consolidate_jobs ([?a] @ ?w # [?l]) = consolidate_jobs ([?a] @ [?l])"
    using skipped_fragment_has_no_effect [of ?w "[?a]" "[?l]" "[]"] s by blast
  show ?thesis using s e r by simp
qed

text \<open>
  Claim C9, as amended. The core never fails: the empty text has no sections, the empty
  sequence has no jobs, \<open>consolidate_jobs\<close> returns a list of jobs on every sequence, an
  item whose lowercased class is none of \<open>title\<close>, \<open>location\<close> and \<open>description\<close> has no
  effect, and a location or description that arrives while no group exists is dropped.
\<close>

theorem core_never_fails:
  "extract_job_sections [] = [] \<and>
   consolidate_jobs [] = Inr [] \<and>
   (\<exists>jobs. consolidate_jobs items = Inr jobs) \<and>
   (py_lower (extraction_class item) \<notin> {''title'', ''location'', ''description''} \<longrightarrow>
      consolidate_jobs (before @ item # after) = consolidate_jobs (before @ after)) \<and>
   (py_lower (extraction_class orphan) \<in> {''location'', ''description''} \<and>
    process_items [] first = Inr [] \<longrightarrow>
      process_items [] (first @ [orphan]) = Inr [] \<and>
      consolidate_jobs (first @ orphan # rest) = consolidate_jobs (first @ rest))"
proof -
  have a: "extract_job_sections [] = []"
    by (simp add: extract_job_sections_def section_step_def py_strip_def)
  have b: "consolidate_jobs [] = Inr []" by (simp add: consolidate_jobs_eq)
  have c: "\<exists>jobs. consolidate_jobs items = Inr jobs" by (simp add: consolidate_jobs_eq)
  have d: "consolidate_jobs (before @ item # after) = consolidate_jobs (before @ after)"
    if "py_lower (extraction_class item) \<notin> {''title'', ''location'', ''description''}"
  proof -
    have "step js item = js" for js using that by (simp add: step_def has_class_def)
    then show ?thesis by (simp add: consolidate_jobs_eq)
  qed
  have e: "process_items [] (first @ [orphan]) = Inr [] \<and>
      consolidate_jobs (first @ orphan # rest) = consolidate_jobs (first @ rest)"
    if "py_lower (extraction_class orphan) \<in> {''location'', ''description''}"
      and "process_items [] first = Inr []"
  proof -
    have f: "foldl step [] first = []" using that(2) by (simp add: process_items_run)
    have "step [] orphan = []" using that(1) by (auto simp: step_def has_class_def on_last_def)
    then show ?thesis using f by (simp add: consolidate_jobs_eq process_items_run)
  qed
  show ?thesis using a b c d e by blast
qed

theorem core_never_fails_witness:
  "consolidate_jobs [\<lparr>extraction_class = ''Salary'', extraction_text = ''100k''\<rparr>,
                     \<lparr>extraction_class = ''location'', extraction_text = ''Lahore''\<rparr>,
                     \<lparr>extraction_class = ''title'', extraction_text = ''Dev''\<rparr>]
     = Inr [\<lparr>title = ''Dev'', location = ''None'', description = ''''\<rparr>]"
proof -
  let ?s = "\<lparr>extraction_class = ''Salary'', extraction_text = ''100k''\<rparr>"
  let ?l = "\<lparr>extraction_class = ''location'', extraction_text = ''Lahore''\<rparr>"
  let ?t = "\<lparr>extraction_class = ''title'', extraction_text = ''Dev''\<rparr>"
  have h1: "py_lower (extraction_class ?s) \<notin> {''title'', ''location'', ''description''}" by code_simp
  have h2: "py_lower (extraction_class ?l) \<in> {''location'', ''description''}" by code_simp
  have h3: "process_items [] [] = Inr []" by simp
  have e1: "consolidate_jobs ([] @ ?s # [?l, ?t]) = consolidate_jobs ([] @ [?l, ?t])"
    using core_never_fails [of "[]" ?s "[]" "[?l, ?t]" ?l "[]" "[]"] h1 by blast
  have e2: "consolidate_jobs ([] @ ?l # [?t]) = consolidate_jobs ([] @ [?t])"
    using core_never_fails [of "[]" ?s "[]" "[]" ?l "[]" "[?t]"] h2 h3 by blast
  have r: "consolidate_jobs [?t] = Inr [\<lparr>title = ''Dev'', location = ''None'', description = ''''\<rparr>]"
    by code_simp
  show ?thesis using e1 e2 r by simp
qed

text \<open>
  Claim C9 as stated fails: the class is compared in lower case, so an item of class
  \<open>Title\<close>, which is none of the three class names, is not ignored.
\<close>

theorem unknown_class_counterexample:
  "''Title'' \<notin> {''title'', ''location'', ''description''} \<and>
   consolidate_jobs [\<lparr>extraction_class = ''Title'', extraction_text = ''Dev''\<rparr>]
     = Inr [\<lparr>title = ''Dev'', location = ''None'', description = ''''\<rparr>] \<and>
   consolidate_jobs [] = Inr []"
proof -
  have "''Title'' \<notin> {''title'', ''location'', ''description''}" by simp
  moreover have "consolidate_jobs [\<lparr>extraction_class = ''Title'', extraction_text = ''Dev''\<rparr>]
     = Inr [\<lparr>title = ''Dev'', location = ''None'', description = ''''\<rparr>]" by code_simp
  moreover have "consolidate_jobs [] = Inr []" by code_simp
  ultimately show ?thesis by blast
qed

text \<open>
  Claim C10. The description of every job is empty or ends with a period, and contains
  neither \<open>!\<close> nor \<open>?\<close>.
\<close>

theorem description_punctuation:
  "\<exists>jobs. consolidate_jobs items = Inr jobs \<and>
     (\<forall>j\<in>set jobs.
        (description j = [] \<or> last (description j) = CHR ''.'') \<and>
        CHR ''!'' \<notin> set (description j) \<and> CHR ''?'' \<notin> set (description j))"
proof -
  let ?jobs = "map finalize (foldl step [] items)"
  have "(description j = [] \<or> last (description j) = CHR ''.'') \<and>
        CHR ''!'' \<notin> set (description j) \<and> CHR ''?'' \<notin> set (description j)"
    if "j \<in> set ?jobs" for j
  proof -
    from that obtain entry where "j = finalize entry" by auto
    then have d: "description j = combine_descriptions (descriptions (snd entry))"
      by (simp add: finalize_def)
    show ?thesis
      unfolding d using combine_descriptions_ends combine_descriptions_no_marks by blast
  qed
  then show ?thesis using consolidate_jobs_eq by blast
qed

theorem description_punctuation_witness:
  "consolidate_jobs punctuation_example =
     Inr [\<lparr>title = ''Dev'', location = ''None'',
           description = ''Great team here. Are you ready to join us. Apply now today.''\<rparr>] \<and>
   last ''Great team here. Are you ready to join us. Apply now today.'' = CHR ''.'' \<and>
   CHR ''!'' \<notin> set ''Great team here. Are you ready to join us. Apply now today.'' \<and>
   CHR ''?'' \<notin> set ''Great team here. Are you ready to join us. Apply now today.''"
proof -
  let ?j = "\<lparr>title = ''Dev'', location = ''None'',
           description = ''Great team here. Are you ready to join us. Apply now today.''\<rparr>"
  have r: "consolidate_jobs punctuation_example = Inr [?j]" by code_simp
  obtain jobs where j: "consolidate_jobs punctuation_example = Inr jobs"
    and a: "\<forall>j\<in>set jobs.
        (description j = [] \<or> last (description j) = CHR ''.'') \<and>
        CHR ''!'' \<notin> set (description j) \<and> CHR ''?'' \<notin> set (description j)"
    using description_punctuation [of punctuation_example] by blast
  have "jobs = [?j]" using j r by simp
  then have "(description ?j = [] \<or> last (description ?j) = CHR ''.'') \<and>
        CHR ''!'' \<notin> set (description ?j) \<and> CHR ''?'' \<notin> set (description ?j)"
    using a by simp
  then show ?thesis using r by simp
qed

end
